theory Spec2Isabelle
  imports Main "HOL-Library.Char_ord"
begin

section \<open>Data model (types.d.ts)\<close>

text \<open>
  The \<open>Operator\<close> union type. The constructors follow the order of the union:
  \<open>< <= == > >= != + - * / **\<close>.
\<close>

datatype operator = OpLt | OpLe | OpEq | OpGt | OpGe | OpNe | OpAdd | OpSub | OpMul | OpDiv | OpPow

text \<open>The \<open>Token\<close> tagged union; \<open>VALUE\<close> carries the index of an interpolation slot.\<close>

datatype token =
    VALUE nat
  | NUMBER string
  | OPERATOR operator
  | FUNCTION string
  | LPAREN
  | RPAREN
  | COMMA
  | EOF

text \<open>The \<open>type\<close> field of a token, as the error messages print it.\<close>

fun token_type :: "token \<Rightarrow> string" where
  "token_type (VALUE _) = ''VALUE''"
| "token_type (NUMBER _) = ''NUMBER''"
| "token_type (OPERATOR _) = ''OPERATOR''"
| "token_type (FUNCTION _) = ''FUNCTION''"
| "token_type LPAREN = ''LPAREN''"
| "token_type RPAREN = ''RPAREN''"
| "token_type COMMA = ''COMMA''"
| "token_type EOF = ''EOF''"

text \<open>The \<open>ASTNode\<close> tagged union.\<close>

datatype ASTNode =
    ValueNode nat
  | NumberNode string
  | UnaryNode operator ASTNode
  | BinaryNode operator ASTNode ASTNode
  | FunctionNode string "ASTNode list"

text \<open>
  Every \<open>throw new Error(...)\<close> of core.js is one constructor, named after its message.
  \<open>NativeTypeError\<close> is the TypeError the JavaScript engine itself raises when the code
  reads a property of \<open>undefined\<close> or calls a method a value does not have.
  \<open>BackendError\<close> is an exception thrown inside the Decimal library.
\<close>

datatype error =
    UnexpectedCharacter char
  | ExpectedLParenAfterFunctionName string
  | ExpectedCommaOrRParen
  | UnknownFunction string
  | ClampRequires3Arguments
  | RequiresOneArgument string
  | ExpectedClosingParenthesis
  | UnexpectedToken string
  | ComparisonInMath operator
  | ComparisonNotTopLevel operator
  | ChainedComparison
  | UnexpectedTokensAfterExpression
  | IsRequiresComparison
  | UnaryOperandNotDecimal
  | BinaryOperandsNotDecimal
  | SumRequiresArray
  | UnknownNodeType
  | NativeTypeError string
  | BackendError string

section \<open>Operator tables\<close>

fun PRECEDENCE :: "operator \<Rightarrow> nat" where
  "PRECEDENCE OpLt = 1"
| "PRECEDENCE OpLe = 1"
| "PRECEDENCE OpEq = 1"
| "PRECEDENCE OpGt = 1"
| "PRECEDENCE OpGe = 1"
| "PRECEDENCE OpNe = 1"
| "PRECEDENCE OpAdd = 2"
| "PRECEDENCE OpSub = 2"
| "PRECEDENCE OpMul = 3"
| "PRECEDENCE OpDiv = 3"
| "PRECEDENCE OpPow = 4"

definition RIGHT_ASSOC :: "operator set" where
  "RIGHT_ASSOC = {OpPow}"

definition COMPARISON_OPS :: "operator set" where
  "COMPARISON_OPS = {OpLt, OpLe, OpEq, OpGt, OpGe, OpNe}"

section \<open>Tokenizer\<close>

definition isDigit :: "char \<Rightarrow> bool" where
  "isDigit c = (CHR ''0'' \<le> c \<and> c \<le> CHR ''9'')"

definition isLower :: "char \<Rightarrow> bool" where
  "isLower c = (CHR ''a'' \<le> c \<and> c \<le> CHR ''z'')"

text \<open>\<open>str[j + 1] === ch\<close>: false at the end of the string, where the read is \<open>undefined\<close>.\<close>

definition nextIs :: "string \<Rightarrow> char \<Rightarrow> bool" where
  "nextIs cs ch = (case cs of [] \<Rightarrow> False | c # _ \<Rightarrow> c = ch)"

text \<open>\<open>tokens.push(t)\<close> followed by the rest of the loop, which may throw.\<close>

definition push :: "token \<Rightarrow> error + token list \<Rightarrow> error + token list" where
  "push t r = (case r of Inl e \<Rightarrow> Inl e | Inr ts \<Rightarrow> Inr (t # ts))"

text \<open>
  The inner loop of \<open>tokenize\<close> over one string. The argument is the part of the string
  from index \<open>j\<close> on; the result is the tokens pushed from there, in order, or the error
  thrown at the first unexpected character.
\<close>

function tokenizeStr :: "string \<Rightarrow> error + token list" where
  "tokenizeStr [] = Inr []"
| "tokenizeStr (c # cs) =
    (if c = CHR '' '' \<or> c = CHR 0x09 \<or> c = CHR 0x0A then tokenizeStr cs
     else if c = CHR ''('' then push LPAREN (tokenizeStr cs)
     else if c = CHR '')'' then push RPAREN (tokenizeStr cs)
     else if c = CHR '','' then push COMMA (tokenizeStr cs)
     else if c = CHR ''*'' \<and> nextIs cs (CHR ''*'') then push (OPERATOR OpPow) (tokenizeStr (tl cs))
     else if c = CHR ''='' \<and> nextIs cs (CHR ''='') then push (OPERATOR OpEq) (tokenizeStr (tl cs))
     else if c = CHR ''!'' \<and> nextIs cs (CHR ''='') then push (OPERATOR OpNe) (tokenizeStr (tl cs))
     else if c = CHR ''<'' \<and> nextIs cs (CHR ''='') then push (OPERATOR OpLe) (tokenizeStr (tl cs))
     else if c = CHR ''>'' \<and> nextIs cs (CHR ''='') then push (OPERATOR OpGe) (tokenizeStr (tl cs))
     else if c = CHR ''<'' then push (OPERATOR OpLt) (tokenizeStr cs)
     else if c = CHR ''>'' then push (OPERATOR OpGt) (tokenizeStr cs)
     else if c = CHR ''+'' then push (OPERATOR OpAdd) (tokenizeStr cs)
     else if c = CHR ''-'' then push (OPERATOR OpSub) (tokenizeStr cs)
     else if c = CHR ''*'' then push (OPERATOR OpMul) (tokenizeStr cs)
     else if c = CHR ''/'' then push (OPERATOR OpDiv) (tokenizeStr cs)
     else if isDigit c then
       push (NUMBER (c # takeWhile (\<lambda>x. isDigit x \<or> x = CHR ''.'') cs))
            (tokenizeStr (dropWhile (\<lambda>x. isDigit x \<or> x = CHR ''.'') cs))
     else if isLower c then
       push (FUNCTION (c # takeWhile isLower cs))
            (tokenizeStr (dropWhile isLower cs))
     else Inl (UnexpectedCharacter c))"
  by pat_completeness auto
termination
  by (relation "measure length")
     (auto simp: le_imp_less_Suc length_dropWhile_le less_Suc_eq_le intro: le_trans [OF diff_le_self])

text \<open>
  The outer loop of \<open>tokenize\<close>, from index \<open>i\<close> on: the tokens of each string, then
  a \<open>VALUE\<close> token with the string's index unless the string is the last one.
\<close>

fun tokenizeFrom :: "nat \<Rightarrow> string list \<Rightarrow> error + token list" where
  "tokenizeFrom i [] = Inr []"
| "tokenizeFrom i (str # strs) =
    (case tokenizeStr str of
       Inl e \<Rightarrow> Inl e
     | Inr ts \<Rightarrow>
        (case tokenizeFrom (Suc i) strs of
           Inl e \<Rightarrow> Inl e
         | Inr rest \<Rightarrow> Inr (ts @ (if strs \<noteq> [] then [VALUE i] else []) @ rest)))"

definition tokenize :: "string list \<Rightarrow> error + token list" where
  "tokenize template =
    (case tokenizeFrom 0 template of
       Inl e \<Rightarrow> Inl e
     | Inr ts \<Rightarrow> Inr (ts @ [EOF]))"

section \<open>Parser (class ASTParser)\<close>

record parser =
  tokens :: "token list"
  pos :: nat
  mode :: string
  hasTopLevelComparison :: bool

text \<open>The constructor.\<close>

definition ASTParser :: "token list \<Rightarrow> string \<Rightarrow> parser" where
  "ASTParser ts m = \<lparr>tokens = ts, pos = 0, mode = m, hasTopLevelComparison = False\<rparr>"

text \<open>\<open>this.tokens[this.pos]\<close>; \<open>None\<close> is JavaScript's \<open>undefined\<close> past the end.\<close>

definition current :: "parser \<Rightarrow> token option" where
  "current p = (if pos p < length (tokens p) then Some (tokens p ! pos p) else None)"

definition advance :: "parser \<Rightarrow> parser" where
  "advance p = p\<lparr>pos := pos p + 1\<rparr>"

definition validFunctions :: "string list" where
  "validFunctions = [''abs'', ''ceil'', ''floor'', ''round'', ''clamp'', ''sum'']"

text \<open>Reading \<open>.type\<close> of an \<open>undefined\<close> token.\<close>

definition undefinedToken :: error where
  "undefinedToken = NativeTypeError ''Cannot read properties of undefined (reading 'type')''"

text \<open>
  \<open>parsePrimary\<close> and \<open>parseExpression\<close> with their two \<open>while\<close> loops
  (\<open>parseArgs\<close>: the argument loop of a function call, with the \<open>args\<close> array so far;
  \<open>parseLoop\<close>: the operator loop, with \<open>left\<close> so far). The parser object is passed
  and returned. The first argument bounds the depth of calls and loop iterations:
  the result is \<open>None\<close> when the bound is reached, \<open>Some (Inl e)\<close> when \<open>e\<close> is thrown,
  \<open>Some (Inr (x, p))\<close> when \<open>x\<close> is returned with the parser in state \<open>p\<close>.
\<close>

fun parsePrimary :: "nat \<Rightarrow> parser \<Rightarrow> (error + ASTNode \<times> parser) option"
  and parseArgs :: "nat \<Rightarrow> ASTNode list \<Rightarrow> parser \<Rightarrow> (error + ASTNode list \<times> parser) option"
  and parseExpression :: "nat \<Rightarrow> nat \<Rightarrow> bool \<Rightarrow> parser \<Rightarrow> (error + ASTNode \<times> parser) option"
  and parseLoop :: "nat \<Rightarrow> nat \<Rightarrow> bool \<Rightarrow> ASTNode \<Rightarrow> parser \<Rightarrow> (error + ASTNode \<times> parser) option"
where
  "parsePrimary 0 p = None"
| "parsePrimary (Suc n) p =
    (case current p of
       None \<Rightarrow> Some (Inl undefinedToken)
     | Some (VALUE index) \<Rightarrow> Some (Inr (ValueNode index, advance p))
     | Some (NUMBER v) \<Rightarrow> Some (Inr (NumberNode v, advance p))
     | Some (FUNCTION funcName) \<Rightarrow>
        (let p1 = advance p in
         case current p1 of
           None \<Rightarrow> Some (Inl undefinedToken)
         | Some t \<Rightarrow>
            if t \<noteq> LPAREN then Some (Inl (ExpectedLParenAfterFunctionName funcName))
            else
              (case parseArgs n [] (advance p1) of
                 None \<Rightarrow> None
               | Some (Inl e) \<Rightarrow> Some (Inl e)
               | Some (Inr (args, p2)) \<Rightarrow>
                  (let p3 = advance p2 in
                   if funcName \<notin> set validFunctions then Some (Inl (UnknownFunction funcName))
                   else if funcName = ''clamp'' \<and> length args \<noteq> 3 then
                     Some (Inl ClampRequires3Arguments)
                   else if funcName \<noteq> ''clamp'' \<and> length args \<noteq> 1 then
                     Some (Inl (RequiresOneArgument funcName))
                   else Some (Inr (FunctionNode funcName args, p3)))))
     | Some (OPERATOR op) \<Rightarrow>
        if op = OpAdd \<or> op = OpSub then
          (case parsePrimary n (advance p) of
             None \<Rightarrow> None
           | Some (Inl e) \<Rightarrow> Some (Inl e)
           | Some (Inr (operand, p1)) \<Rightarrow> Some (Inr (UnaryNode op operand, p1)))
        else Some (Inl (UnexpectedToken (token_type (OPERATOR op))))
     | Some LPAREN \<Rightarrow>
        (case parseExpression n 0 False (advance p) of
           None \<Rightarrow> None
         | Some (Inl e) \<Rightarrow> Some (Inl e)
         | Some (Inr (expr, p1)) \<Rightarrow>
            (case current p1 of
               None \<Rightarrow> Some (Inl undefinedToken)
             | Some t \<Rightarrow>
                if t \<noteq> RPAREN then Some (Inl ExpectedClosingParenthesis)
                else Some (Inr (expr, advance p1))))
     | Some t \<Rightarrow> Some (Inl (UnexpectedToken (token_type t))))"
| "parseArgs 0 args p = None"
| "parseArgs (Suc n) args p =
    (case current p of
       None \<Rightarrow> Some (Inl undefinedToken)
     | Some t \<Rightarrow>
        if t = RPAREN then Some (Inr (args, p))
        else
          (case parseExpression n 0 False p of
             None \<Rightarrow> None
           | Some (Inl e) \<Rightarrow> Some (Inl e)
           | Some (Inr (arg, p1)) \<Rightarrow>
              (case current p1 of
                 None \<Rightarrow> Some (Inl undefinedToken)
               | Some t1 \<Rightarrow>
                  if t1 = COMMA then parseArgs n (args @ [arg]) (advance p1)
                  else if t1 \<noteq> RPAREN then Some (Inl ExpectedCommaOrRParen)
                  else parseArgs n (args @ [arg]) p1)))"
| "parseExpression 0 minPrec isTopLevel p = None"
| "parseExpression (Suc n) minPrec isTopLevel p =
    (case parsePrimary n p of
       None \<Rightarrow> None
     | Some (Inl e) \<Rightarrow> Some (Inl e)
     | Some (Inr (left, p1)) \<Rightarrow> parseLoop n minPrec isTopLevel left p1)"
| "parseLoop 0 minPrec isTopLevel left p = None"
| "parseLoop (Suc n) minPrec isTopLevel left p =
    (case current p of
       None \<Rightarrow> Some (Inl undefinedToken)
     | Some (OPERATOR op) \<Rightarrow>
        (let prec = PRECEDENCE op in
         if prec < minPrec then Some (Inr (left, p))
         else if op \<in> COMPARISON_OPS \<and> mode p = ''math'' then Some (Inl (ComparisonInMath op))
         else if op \<in> COMPARISON_OPS \<and> mode p = ''is'' \<and> \<not> isTopLevel then
           Some (Inl (ComparisonNotTopLevel op))
         else if op \<in> COMPARISON_OPS \<and> mode p = ''is'' \<and> hasTopLevelComparison p then
           Some (Inl ChainedComparison)
         else
           (let p1 = (if op \<in> COMPARISON_OPS \<and> mode p = ''is''
                      then p\<lparr>hasTopLevelComparison := True\<rparr> else p);
                p2 = advance p1;
                nextMinPrec = (if op \<in> RIGHT_ASSOC then prec else prec + 1)
            in case parseExpression n nextMinPrec isTopLevel p2 of
                 None \<Rightarrow> None
               | Some (Inl e) \<Rightarrow> Some (Inl e)
               | Some (Inr (right, p3)) \<Rightarrow>
                  parseLoop n minPrec isTopLevel (BinaryNode op left right) p3))
     | Some t \<Rightarrow> Some (Inr (left, p)))"

text \<open>
  A bound that is never reached on a token list \<open>ts\<close> (lemma \<open>parse_total\<close> below):
  every call or iteration either consumes a token or is one of at most three that follow
  each other without consuming one.
\<close>

definition parseFuel :: "token list \<Rightarrow> nat" where
  "parseFuel ts = 3 * length ts + 2"

text \<open>
  The cache-miss branch of \<open>math\<close>: tokenize, parse in mode \<open>math\<close>, require \<open>EOF\<close>.
\<close>

definition parseMath :: "string list \<Rightarrow> (error + ASTNode) option" where
  "parseMath template =
    (case tokenize template of
       Inl e \<Rightarrow> Some (Inl e)
     | Inr ts \<Rightarrow>
        (case parseExpression (parseFuel ts) 0 True (ASTParser ts ''math'') of
           None \<Rightarrow> None
         | Some (Inl e) \<Rightarrow> Some (Inl e)
         | Some (Inr (ast, p)) \<Rightarrow>
            (case current p of
               None \<Rightarrow> Some (Inl undefinedToken)
             | Some t \<Rightarrow>
                if t \<noteq> EOF then Some (Inl UnexpectedTokensAfterExpression)
                else Some (Inr ast))))"

text \<open>
  The cache-miss branch of \<open>is\<close>: as above in mode \<open>is\<close>, and a top-level comparison
  must have been seen.
\<close>

definition parseIs :: "string list \<Rightarrow> (error + ASTNode) option" where
  "parseIs template =
    (case tokenize template of
       Inl e \<Rightarrow> Some (Inl e)
     | Inr ts \<Rightarrow>
        (case parseExpression (parseFuel ts) 0 True (ASTParser ts ''is'') of
           None \<Rightarrow> None
         | Some (Inl e) \<Rightarrow> Some (Inl e)
         | Some (Inr (ast, p)) \<Rightarrow>
            (case current p of
               None \<Rightarrow> Some (Inl undefinedToken)
             | Some t \<Rightarrow>
                if t \<noteq> EOF then Some (Inl UnexpectedTokensAfterExpression)
                else if \<not> hasTopLevelComparison p then Some (Inl IsRequiresComparison)
                else Some (Inr ast))))"

section \<open>Runtime values and the Decimal backend\<close>

text \<open>
  \<open>DecimalValue = string | number | bigint\<close>. The representation \<open>'n\<close> of JavaScript
  numbers is left open; the code itself only ever writes the number \<open>0\<close>.
\<close>

datatype 'n scalar = Str string | Num 'n

text \<open>
  The values the interpreter handles: a raw scalar, an instance of the Decimal
  constructor, an array, a boolean (what a comparison returns), and \<open>undefined\<close>
  (what reading an array out of range returns).
\<close>

datatype ('d, 'n) jsval =
    Scalar "'n scalar"
  | Dec 'd
  | Arr "('d, 'n) jsval list"
  | Bool bool
  | Undefined

text \<open>
  The Decimal library is a parameter of \<open>create\<close>: the interfaces \<open>DecimalConstructor\<close>
  (\<open>d_new\<close> is \<open>new\<close>, \<open>d_sum\<close> the static \<open>sum\<close>) and \<open>DecimalInstance\<close> of types.d.ts.
  The constructor, \<open>clamp\<close> and \<open>sum\<close> receive values the interpreter has not checked,
  and may throw.
\<close>

record ('d, 'n) backend =
  d_new :: "('d, 'n) jsval \<Rightarrow> error + 'd"
  d_sum :: "('d, 'n) jsval list \<Rightarrow> error + 'd"
  d_add :: "'d \<Rightarrow> 'd \<Rightarrow> 'd"
  d_sub :: "'d \<Rightarrow> 'd \<Rightarrow> 'd"
  d_mul :: "'d \<Rightarrow> 'd \<Rightarrow> 'd"
  d_div :: "'d \<Rightarrow> 'd \<Rightarrow> 'd"
  d_pow :: "'d \<Rightarrow> 'd \<Rightarrow> 'd"
  d_lt :: "'d \<Rightarrow> 'd \<Rightarrow> bool"
  d_lte :: "'d \<Rightarrow> 'd \<Rightarrow> bool"
  d_eq :: "'d \<Rightarrow> 'd \<Rightarrow> bool"
  d_gt :: "'d \<Rightarrow> 'd \<Rightarrow> bool"
  d_gte :: "'d \<Rightarrow> 'd \<Rightarrow> bool"
  d_abs :: "'d \<Rightarrow> 'd"
  d_neg :: "'d \<Rightarrow> 'd"
  d_ceil :: "'d \<Rightarrow> 'd"
  d_floor :: "'d \<Rightarrow> 'd"
  d_round :: "'d \<Rightarrow> 'd"
  d_clamp :: "'d \<Rightarrow> ('d, 'n) jsval \<Rightarrow> ('d, 'n) jsval \<Rightarrow> error + 'd"

section \<open>Value preprocessing\<close>

text \<open>
  \<open>values.map(...)\<close>: a Decimal instance and an array are kept, anything else goes
  through the constructor; the first exception of the constructor ends the map.
\<close>

fun preprocessValues ::
  "('d, 'n) jsval list \<Rightarrow> ('d, 'n) backend \<Rightarrow> error + ('d, 'n) jsval list" where
  "preprocessValues [] D = Inr []"
| "preprocessValues (val # vals) D =
    (case (case val of
             Dec d \<Rightarrow> Inr (Dec d)
           | Arr xs \<Rightarrow> Inr (Arr xs)
           | _ \<Rightarrow> (case d_new D val of Inl e \<Rightarrow> Inl e | Inr d \<Rightarrow> Inr (Dec d))) of
       Inl e \<Rightarrow> Inl e
     | Inr v \<Rightarrow>
        (case preprocessValues vals D of
           Inl e \<Rightarrow> Inl e
         | Inr vs \<Rightarrow> Inr (v # vs)))"

section \<open>Interpreter\<close>

text \<open>
  The function \<open>interpret\<close> of core.js is \<open>interpretNode\<close> here, and the entry point
  \<open>is\<close> is \<open>is'\<close>: both names are keywords of Isabelle.
\<close>

text \<open>\<open>xs[i]\<close> on a JavaScript array: \<open>undefined\<close> out of range.\<close>

definition at :: "('d, 'n) jsval list \<Rightarrow> nat \<Rightarrow> ('d, 'n) jsval" where
  "at xs i = (if i < length xs then xs ! i else Undefined)"

text \<open>
  \<open>v.name()\<close> for a method \<open>name\<close> of Decimal instances: only an instance has the method;
  on any other value the engine raises a TypeError.
\<close>

definition callMethod ::
  "string \<Rightarrow> ('d, 'n) jsval \<Rightarrow> ('d \<Rightarrow> error + 'd) \<Rightarrow> error + ('d, 'n) jsval" where
  "callMethod name v f =
    (case v of
       Dec d \<Rightarrow> (case f d of Inl e \<Rightarrow> Inl e | Inr r \<Rightarrow> Inr (Dec r))
     | Undefined \<Rightarrow> Inl (NativeTypeError (''Cannot read properties of undefined (reading '' @ name @ '')''))
     | _ \<Rightarrow> Inl (NativeTypeError (''args[0].'' @ name @ '' is not a function'')))"

fun interpretNode ::
    "ASTNode \<Rightarrow> ('d, 'n::zero) jsval list \<Rightarrow> ('d, 'n) backend \<Rightarrow> error + ('d, 'n) jsval"
  and interpretArgs ::
    "ASTNode list \<Rightarrow> ('d, 'n::zero) jsval list \<Rightarrow> ('d, 'n) backend \<Rightarrow> error + ('d, 'n) jsval list"
where
  "interpretNode (ValueNode index) values D = Inr (at values index)"
| "interpretNode (NumberNode v) values D =
    (case d_new D (Scalar (Str v)) of Inl e \<Rightarrow> Inl e | Inr d \<Rightarrow> Inr (Dec d))"
| "interpretNode (UnaryNode op operandNode) values D =
    (case interpretNode operandNode values D of
       Inl e \<Rightarrow> Inl e
     | Inr (Dec operand) \<Rightarrow>
        if op = OpSub then Inr (Dec (d_neg D operand))
        else if op = OpAdd then Inr (Dec operand)
        else Inl UnknownNodeType
     | Inr _ \<Rightarrow> Inl UnaryOperandNotDecimal)"
| "interpretNode (BinaryNode op leftNode rightNode) values D =
    (case interpretNode leftNode values D of
       Inl e \<Rightarrow> Inl e
     | Inr l \<Rightarrow>
        (case interpretNode rightNode values D of
           Inl e \<Rightarrow> Inl e
         | Inr r \<Rightarrow>
            (case (l, r) of
               (Dec left, Dec right) \<Rightarrow>
                 (case op of
                    OpAdd \<Rightarrow> Inr (Dec (d_add D left right))
                  | OpSub \<Rightarrow> Inr (Dec (d_sub D left right))
                  | OpMul \<Rightarrow> Inr (Dec (d_mul D left right))
                  | OpDiv \<Rightarrow> Inr (Dec (d_div D left right))
                  | OpPow \<Rightarrow> Inr (Dec (d_pow D left right))
                  | OpLt \<Rightarrow> Inr (Bool (d_lt D left right))
                  | OpLe \<Rightarrow> Inr (Bool (d_lte D left right))
                  | OpEq \<Rightarrow> Inr (Bool (d_eq D left right))
                  | OpGt \<Rightarrow> Inr (Bool (d_gt D left right))
                  | OpGe \<Rightarrow> Inr (Bool (d_gte D left right))
                  | OpNe \<Rightarrow> Inr (Bool (\<not> d_eq D left right)))
             | _ \<Rightarrow> Inl BinaryOperandsNotDecimal)))"
| "interpretNode (FunctionNode name argNodes) values D =
    (case interpretArgs argNodes values D of
       Inl e \<Rightarrow> Inl e
     | Inr args \<Rightarrow>
        if name = ''abs'' then callMethod ''abs'' (at args 0) (\<lambda>d. Inr (d_abs D d))
        else if name = ''ceil'' then callMethod ''ceil'' (at args 0) (\<lambda>d. Inr (d_ceil D d))
        else if name = ''floor'' then callMethod ''floor'' (at args 0) (\<lambda>d. Inr (d_floor D d))
        else if name = ''round'' then callMethod ''round'' (at args 0) (\<lambda>d. Inr (d_round D d))
        else if name = ''clamp'' then
          callMethod ''clamp'' (at args 0) (\<lambda>d. d_clamp D d (at args 1) (at args 2))
        else if name = ''sum'' then
          (case at args 0 of
             Arr arr \<Rightarrow>
               (case d_sum D (Scalar (Num 0) # arr) of Inl e \<Rightarrow> Inl e | Inr d \<Rightarrow> Inr (Dec d))
           | _ \<Rightarrow> Inl SumRequiresArray)
        else Inl (UnknownFunction name))"
| "interpretArgs [] values D = Inr []"
| "interpretArgs (a # as) values D =
    (case interpretNode a values D of
       Inl e \<Rightarrow> Inl e
     | Inr v \<Rightarrow>
        (case interpretArgs as values D of
           Inl e \<Rightarrow> Inl e
         | Inr vs \<Rightarrow> Inr (v # vs)))"

section \<open>The entry points and their caches (create)\<close>

text \<open>
  A \<open>TemplateStringsArray\<close>: a frozen array of strings with an object identity.
  The WeakMaps are keyed by the identity.
\<close>

record template =
  ident :: nat
  strings :: "string list"

text \<open>
  The state closed over by \<open>math\<close> and \<open>is\<close>. \<open>parseCount\<close> is instrumentation, not a
  variable of the code: it counts the executions of a cache-miss branch.
\<close>

record caches =
  mathCache :: "nat \<rightharpoonup> ASTNode"
  isCache :: "nat \<rightharpoonup> ASTNode"
  parseCount :: nat

definition create :: caches where
  "create = \<lparr>mathCache = Map.empty, isCache = Map.empty, parseCount = 0\<rparr>"

text \<open>The last two lines of \<open>math\<close> and of \<open>is\<close>.\<close>

definition evaluate ::
  "('d, 'n::zero) backend \<Rightarrow> ASTNode \<Rightarrow> ('d, 'n) jsval list \<Rightarrow> error + ('d, 'n) jsval" where
  "evaluate D ast values =
    (case preprocessValues values D of
       Inl e \<Rightarrow> Inl e
     | Inr processedValues \<Rightarrow> interpretNode ast processedValues D)"

definition math ::
  "('d, 'n::zero) backend \<Rightarrow> caches \<Rightarrow> template \<Rightarrow> ('d, 'n) jsval list
    \<Rightarrow> (error + ('d, 'n) jsval) option \<times> caches" where
  "math D c t values =
    (case mathCache c (ident t) of
       Some ast \<Rightarrow> (Some (evaluate D ast values), c)
     | None \<Rightarrow>
        (case parseMath (strings t) of
           None \<Rightarrow> (None, c\<lparr>parseCount := parseCount c + 1\<rparr>)
         | Some (Inl e) \<Rightarrow> (Some (Inl e), c\<lparr>parseCount := parseCount c + 1\<rparr>)
         | Some (Inr ast) \<Rightarrow>
            (Some (evaluate D ast values),
             c\<lparr>mathCache := (mathCache c)(ident t \<mapsto> ast), parseCount := parseCount c + 1\<rparr>)))"

definition is' ::
  "('d, 'n::zero) backend \<Rightarrow> caches \<Rightarrow> template \<Rightarrow> ('d, 'n) jsval list
    \<Rightarrow> (error + ('d, 'n) jsval) option \<times> caches" where
  "is' D c t values =
    (case isCache c (ident t) of
       Some ast \<Rightarrow> (Some (evaluate D ast values), c)
     | None \<Rightarrow>
        (case parseIs (strings t) of
           None \<Rightarrow> (None, c\<lparr>parseCount := parseCount c + 1\<rparr>)
         | Some (Inl e) \<Rightarrow> (Some (Inl e), c\<lparr>parseCount := parseCount c + 1\<rparr>)
         | Some (Inr ast) \<Rightarrow>
            (Some (evaluate D ast values),
             c\<lparr>isCache := (isCache c)(ident t \<mapsto> ast), parseCount := parseCount c + 1\<rparr>)))"

section \<open>Value indices of a tree\<close>

text \<open>The indices at which \<open>interpret\<close> reads \<open>values\<close> when it walks a tree.\<close>

fun valueIndices :: "ASTNode \<Rightarrow> nat set"
  and valueIndicesList :: "ASTNode list \<Rightarrow> nat set" where
  "valueIndices (ValueNode index) = {index}"
| "valueIndices (NumberNode v) = {}"
| "valueIndices (UnaryNode op operand) = valueIndices operand"
| "valueIndices (BinaryNode op l r) = valueIndices l \<union> valueIndices r"
| "valueIndices (FunctionNode name args) = valueIndicesList args"
| "valueIndicesList [] = {}"
| "valueIndicesList (a # as) = valueIndices a \<union> valueIndicesList as"

section \<open>The grammar of section 4.2 of the specification\<close>

text \<open>
  Modelled from the spec: the expressions of section 4.2, as concrete syntax. A primary
  is a value reference, a numeric literal, a unary \<open>+\<close> or \<open>-\<close> applied to a primary,
  a parenthesized expression or a function call \<open>name '(' arg (',' arg)* ')'\<close>; an
  expression is a primary followed by any number of (binary operator, primary) pairs.
  No grouping of the binary operators is part of this syntax.
\<close>

datatype prim =
    PValue nat
  | PNumber string
  | PUnary operator prim
  | PParen expr
  | PCall string "expr list"
and expr =
    Chain prim "(operator \<times> prim) list"

text \<open>The tokens that spell an expression.\<close>

fun toksPrim :: "prim \<Rightarrow> token list"
  and toksExpr :: "expr \<Rightarrow> token list"
  and toksArgs :: "expr list \<Rightarrow> token list"
  and toksOps :: "(operator \<times> prim) list \<Rightarrow> token list" where
  "toksPrim (PValue i) = [VALUE i]"
| "toksPrim (PNumber v) = [NUMBER v]"
| "toksPrim (PUnary op q) = OPERATOR op # toksPrim q"
| "toksPrim (PParen e) = LPAREN # toksExpr e @ [RPAREN]"
| "toksPrim (PCall f args) = FUNCTION f # LPAREN # toksArgs args @ [RPAREN]"
| "toksExpr (Chain q ops) = toksPrim q @ toksOps ops"
| "toksArgs [] = []"
| "toksArgs (e # es) = toksExpr e @ (if es = [] then [] else COMMA # toksArgs es)"
| "toksOps [] = []"
| "toksOps ((op, q) # ops) = OPERATOR op # toksPrim q @ toksOps ops"

text \<open>
  Modelled from the spec: the side conditions of the grammar. A unary operator is \<open>+\<close>
  or \<open>-\<close>; a function name is one of the six, \<open>clamp\<close> with three arguments and the
  others with one.
\<close>

fun validPrim :: "prim \<Rightarrow> bool"
  and validExpr :: "expr \<Rightarrow> bool"
  and validArgs :: "expr list \<Rightarrow> bool"
  and validOps :: "(operator \<times> prim) list \<Rightarrow> bool" where
  "validPrim (PValue i) = True"
| "validPrim (PNumber v) = True"
| "validPrim (PUnary op q) = ((op = OpAdd \<or> op = OpSub) \<and> validPrim q)"
| "validPrim (PParen e) = validExpr e"
| "validPrim (PCall f args) =
    (f \<in> set validFunctions \<and> length args = (if f = ''clamp'' then 3 else 1) \<and> validArgs args)"
| "validExpr (Chain q ops) = (validPrim q \<and> validOps ops)"
| "validArgs [] = True"
| "validArgs (e # es) = (validExpr e \<and> validArgs es)"
| "validOps [] = True"
| "validOps ((op, q) # ops) = (validPrim q \<and> validOps ops)"

section \<open>The reference grouping\<close>

text \<open>
  A chain is a first operand and a list of (operator, operand) pairs, the operands
  being trees already.
\<close>

type_synonym chain = "ASTNode \<times> (operator \<times> ASTNode) list"

text \<open>
  Modelled from the spec: "applying operator precedence (comparisons=1, additive=2,
  multiplicative=3, power=4) with left-to-right grouping for \<open>+ - * /\<close> and
  right-to-left grouping for \<open>**\<close>, as if the expression were explicitly
  parenthesized". To parenthesize a chain at rank \<open>k\<close>, cut it at its operators of rank
  \<open>k\<close>, parenthesize every piece at the next rank, and combine the pieces from left to
  right. At rank 4 only \<open>**\<close> is left, and the operands combine from right to left.
\<close>

definition notRank :: "nat \<Rightarrow> operator \<times> ASTNode \<Rightarrow> bool" where
  "notRank k x = (PRECEDENCE (fst x) \<noteq> k)"

text \<open>The pieces of a chain that starts with an operator of rank \<open>k\<close>.\<close>

function pieces :: "nat \<Rightarrow> (operator \<times> ASTNode) list \<Rightarrow> (operator \<times> chain) list" where
  "pieces k [] = []"
| "pieces k ((op, b) # r) =
    (op, (b, takeWhile (notRank k) r)) # pieces k (dropWhile (notRank k) r)"
  by pat_completeness auto
termination
  by (relation "measure (\<lambda>(k, r). length r)") (auto simp: le_imp_less_Suc length_dropWhile_le)

definition leftToRight :: "nat \<Rightarrow> (chain \<Rightarrow> ASTNode) \<Rightarrow> chain \<Rightarrow> ASTNode" where
  "leftToRight k sub c =
    foldl (\<lambda>l (op, piece). BinaryNode op l (sub piece))
      (sub (fst c, takeWhile (notRank k) (snd c)))
      (pieces k (dropWhile (notRank k) (snd c)))"

fun rightToLeft :: "ASTNode \<Rightarrow> (operator \<times> ASTNode) list \<Rightarrow> ASTNode" where
  "rightToLeft a [] = a"
| "rightToLeft a ((op, b) # r) = BinaryNode op a (rightToLeft b r)"

definition groupPower :: "chain \<Rightarrow> ASTNode" where
  "groupPower c = rightToLeft (fst c) (snd c)"

definition groupMultiplicative :: "chain \<Rightarrow> ASTNode" where
  "groupMultiplicative = leftToRight 3 groupPower"

definition groupAdditive :: "chain \<Rightarrow> ASTNode" where
  "groupAdditive = leftToRight 2 groupMultiplicative"

definition groupComparison :: "chain \<Rightarrow> ASTNode" where
  "groupComparison = leftToRight 1 groupAdditive"

text \<open>
  The reference tree of an expression: parentheses only group, a call keeps its
  arguments in order, a chain is grouped by rank.
\<close>

fun refPrim :: "prim \<Rightarrow> ASTNode"
  and refExpr :: "expr \<Rightarrow> ASTNode"
  and refArgs :: "expr list \<Rightarrow> ASTNode list"
  and refOps :: "(operator \<times> prim) list \<Rightarrow> (operator \<times> ASTNode) list" where
  "refPrim (PValue i) = ValueNode i"
| "refPrim (PNumber v) = NumberNode v"
| "refPrim (PUnary op q) = UnaryNode op (refPrim q)"
| "refPrim (PParen e) = refExpr e"
| "refPrim (PCall f args) = FunctionNode f (refArgs args)"
| "refExpr (Chain q ops) = groupComparison (refPrim q, refOps ops)"
| "refArgs [] = []"
| "refArgs (e # es) = refExpr e # refArgs es"
| "refOps [] = []"
| "refOps ((op, q) # ops) = (op, refPrim q) # refOps ops"

section \<open>The mode rules on the token stream\<close>

text \<open>
  Modelled from the spec: "arithmetic (no comparisons allowed anywhere) and predicate
  (exactly one comparison allowed, and only at the top level)", the top level being
  "not inside parentheses or function arguments". The tokens are read from left to
  right with the number of parentheses open and whether a top-level comparison has
  been met; the first comparison that breaks the rule of the mode is the error.
\<close>

fun scanToken :: "string \<Rightarrow> bool \<times> nat \<Rightarrow> token \<Rightarrow> error + bool \<times> nat" where
  "scanToken m (seen, depth) LPAREN = Inr (seen, depth + 1)"
| "scanToken m (seen, depth) RPAREN = Inr (seen, depth - 1)"
| "scanToken m (seen, depth) (OPERATOR op) =
    (if op \<in> COMPARISON_OPS \<and> m = ''math'' then Inl (ComparisonInMath op)
     else if op \<in> COMPARISON_OPS \<and> m = ''is'' \<and> depth \<noteq> 0 then Inl (ComparisonNotTopLevel op)
     else if op \<in> COMPARISON_OPS \<and> m = ''is'' \<and> seen then Inl ChainedComparison
     else if op \<in> COMPARISON_OPS \<and> m = ''is'' then Inr (True, depth)
     else Inr (seen, depth))"
| "scanToken m (seen, depth) t = Inr (seen, depth)"

fun scan :: "string \<Rightarrow> bool \<times> nat \<Rightarrow> token list \<Rightarrow> error + bool \<times> nat" where
  "scan m s [] = Inr s"
| "scan m s (t # ts) = (case scanToken m s t of Inl e \<Rightarrow> Inl e | Inr s' \<Rightarrow> scan m s' ts)"

text \<open>The comparison operators of a token list, with the number of parentheses open at each.\<close>

fun comparisons :: "nat \<Rightarrow> token list \<Rightarrow> (operator \<times> nat) list" where
  "comparisons depth [] = []"
| "comparisons depth (LPAREN # ts) = comparisons (depth + 1) ts"
| "comparisons depth (RPAREN # ts) = comparisons (depth - 1) ts"
| "comparisons depth (OPERATOR op # ts) =
    (if op \<in> COMPARISON_OPS then (op, depth) # comparisons depth ts else comparisons depth ts)"
| "comparisons depth (t # ts) = comparisons depth ts"

section \<open>A backend over the integers\<close>

text \<open>
  decimal.js is not part of the repository. For the numeric examples of the
  specification (\<open>2+3*4 = 14\<close> and the like) the backend interface is filled with exact
  integer arithmetic, which agrees with decimal arithmetic on them. Every general
  statement below is about an arbitrary backend.
\<close>

definition digitValue :: "char \<Rightarrow> int" where
  "digitValue c = int (of_char c) - 48"

definition intOfString :: "string \<Rightarrow> int option" where
  "intOfString s =
    (if s \<noteq> [] \<and> list_all isDigit s then Some (foldl (\<lambda>a c. 10 * a + digitValue c) 0 s)
     else None)"

fun intOfValue :: "(int, int) jsval \<Rightarrow> error + int" where
  "intOfValue (Dec d) = Inr d"
| "intOfValue (Scalar (Num n)) = Inr n"
| "intOfValue (Scalar (Str s)) =
    (case intOfString s of None \<Rightarrow> Inl (BackendError ''Invalid argument'') | Some i \<Rightarrow> Inr i)"
| "intOfValue v = Inl (BackendError ''Invalid argument'')"

fun intSum :: "(int, int) jsval list \<Rightarrow> error + int" where
  "intSum [] = Inr 0"
| "intSum (v # vs) =
    (case intOfValue v of
       Inl e \<Rightarrow> Inl e
     | Inr x \<Rightarrow> (case intSum vs of Inl e \<Rightarrow> Inl e | Inr y \<Rightarrow> Inr (x + y)))"

definition intClamp :: "int \<Rightarrow> (int, int) jsval \<Rightarrow> (int, int) jsval \<Rightarrow> error + int" where
  "intClamp x lo hi =
    (case intOfValue lo of
       Inl e \<Rightarrow> Inl e
     | Inr l \<Rightarrow>
        (case intOfValue hi of
           Inl e \<Rightarrow> Inl e
         | Inr h \<Rightarrow>
            if h < l then Inl (BackendError ''Invalid argument'')
            else Inr (if x < l then l else if h < x then h else x)))"

definition intBackend :: "(int, int) backend" where
  "intBackend =
    \<lparr>d_new = intOfValue, d_sum = intSum,
     d_add = (\<lambda>a b. a + b), d_sub = (\<lambda>a b. a - b), d_mul = (\<lambda>a b. a * b),
     d_div = (\<lambda>a b. a div b), d_pow = (\<lambda>a b. a ^ nat b),
     d_lt = (\<lambda>a b. a < b), d_lte = (\<lambda>a b. a \<le> b), d_eq = (\<lambda>a b. a = b),
     d_gt = (\<lambda>a b. b < a), d_gte = (\<lambda>a b. b \<le> a),
     d_abs = abs, d_neg = uminus, d_ceil = id, d_floor = id, d_round = id,
     d_clamp = intClamp\<rparr>"

section \<open>Sound caches and evaluation without a cache\<close>

text \<open>
  The strings of a template object never change (the array is frozen), so the objects
  in existence are a function \<open>h\<close> from identities to strings. A cache is sound for
  \<open>h\<close> when every tree it holds is the tree its parser gives for the strings of the key.
\<close>

definition cachesSound :: "(nat \<Rightarrow> string list) \<Rightarrow> caches \<Rightarrow> bool" where
  "cachesSound h c =
    ((\<forall>i ast. mathCache c i = Some ast \<longrightarrow> parseMath (h i) = Some (Inr ast)) \<and>
     (\<forall>i ast. isCache c i = Some ast \<longrightarrow> parseIs (h i) = Some (Inr ast)))"

text \<open>Tokenize, parse and evaluate with no cache.\<close>

definition freshMath ::
  "('d, 'n::zero) backend \<Rightarrow> string list \<Rightarrow> ('d, 'n) jsval list \<Rightarrow> (error + ('d, 'n) jsval) option" where
  "freshMath D strs values =
    (case parseMath strs of
       None \<Rightarrow> None
     | Some (Inl e) \<Rightarrow> Some (Inl e)
     | Some (Inr ast) \<Rightarrow> Some (evaluate D ast values))"

definition freshIs ::
  "('d, 'n::zero) backend \<Rightarrow> string list \<Rightarrow> ('d, 'n) jsval list \<Rightarrow> (error + ('d, 'n) jsval) option" where
  "freshIs D strs values =
    (case parseIs strs of
       None \<Rightarrow> None
     | Some (Inl e) \<Rightarrow> Some (Inl e)
     | Some (Inr ast) \<Rightarrow> Some (evaluate D ast values))"

section \<open>Auxiliary notions\<close>

text \<open>
  One step of the inner loop of the tokenizer, seen from outside: it throws, or goes on
  with a string that is not longer, having pushed nothing or one token that is neither a
  \<open>VALUE\<close> nor \<open>EOF\<close>.
\<close>

definition tokStep :: "string \<Rightarrow> error + token list \<Rightarrow> bool" where
  "tokStep cs r =
    ((\<exists>cs'. length cs' \<le> length cs \<and>
       (r = tokenizeStr cs' \<or> (\<exists>t. (\<forall>i. t \<noteq> VALUE i) \<and> t \<noteq> EOF \<and> r = push t (tokenizeStr cs'))))
     \<or> (\<exists>e. r = Inl e))"

text \<open>The interpolation slots a token list refers to.\<close>

definition slots :: "token list \<Rightarrow> nat set" where
  "slots ts = {i. VALUE i \<in> set ts}"

section \<open>The operator loop on a chain\<close>

text \<open>
  What the loop of \<open>parseExpression\<close> does to a chain whose operands are parsed
  already (by \<open>f\<close>), told apart from the tokens: with threshold \<open>minPrec\<close> and \<open>left\<close>
  so far, it returns the tree, the pairs it has consumed and the pairs it has left.
  It is the bridge between the parser and the reference grouping.
\<close>

function climb ::
  "('x \<Rightarrow> ASTNode) \<Rightarrow> nat \<Rightarrow> ASTNode \<Rightarrow> (operator \<times> 'x) list
    \<Rightarrow> ASTNode \<times> (operator \<times> 'x) list \<times> (operator \<times> 'x) list" where
  "climb f minPrec left [] = (left, [], [])"
| "climb f minPrec left ((op, q) # r) =
    (if PRECEDENCE op < minPrec then (left, [], (op, q) # r)
     else
       (case climb f (if op \<in> RIGHT_ASSOC then PRECEDENCE op else PRECEDENCE op + 1) (f q) r of
          (right, pre1, post1) \<Rightarrow>
            (case climb f minPrec (BinaryNode op left right) post1 of
               (a, pre2, post2) \<Rightarrow> (a, (op, q) # pre1 @ pre2, post2))))"
  by pat_completeness auto

lemma climb_dom_append:
  "climb_dom (f, m, l, ops) \<Longrightarrow> climb f m l ops = (a, pre, post) \<Longrightarrow> ops = pre @ post"
proof (induction f m l ops arbitrary: a pre post rule: climb.pinduct)
  case (1 f minPrec left)
  then show ?case by (simp add: climb.psimps)
next
  case (2 f minPrec left op q r)
  show ?case
  proof (cases "PRECEDENCE op < minPrec")
    case True
    with "2.prems" "2.hyps" show ?thesis by (simp add: climb.psimps)
  next
    case False
    obtain right pre1 post1 where
      c1: "climb f (if op \<in> RIGHT_ASSOC then PRECEDENCE op else PRECEDENCE op + 1) (f q) r
            = (right, pre1, post1)"
      by (cases "climb f (if op \<in> RIGHT_ASSOC then PRECEDENCE op else PRECEDENCE op + 1) (f q) r")
    obtain a2 pre2 post2 where
      c2: "climb f minPrec (BinaryNode op left right) post1 = (a2, pre2, post2)"
      by (cases "climb f minPrec (BinaryNode op left right) post1")
    from "2.IH"(1) [OF False c1] have r: "r = pre1 @ post1" .
    from "2.IH"(2) [OF False c1 [symmetric] refl c2] have p: "post1 = pre2 @ post2" .
    from "2.prems" "2.hyps" False c1 c2 have "pre = (op, q) # pre1 @ pre2" "post = post2"
      by (simp_all add: climb.psimps)
    with r p show ?thesis by simp
  qed
qed

termination climb
  by (relation "measure (\<lambda>(f, m, l, ops). length ops)")
     (auto dest: climb_dom_append climb_dom_append [OF _ sym])

text \<open>The threshold for the right operand of an operator.\<close>

definition nextMinPrec :: "operator \<Rightarrow> nat" where
  "nextMinPrec op = (if op \<in> RIGHT_ASSOC then PRECEDENCE op else PRECEDENCE op + 1)"

text \<open>
  A grouping \<open>sub\<close> of chains is what the loop computes at threshold \<open>k\<close>.
\<close>

definition levelOK :: "('x \<Rightarrow> ASTNode) \<Rightarrow> nat \<Rightarrow> (chain \<Rightarrow> ASTNode) \<Rightarrow> bool" where
  "levelOK f k sub =
    (\<forall>b r x pre post. climb f k b r = (x, pre, post) \<longrightarrow> x = sub (b, map (apsnd f) pre))"

section \<open>Notions for the parser proofs\<close>

text \<open>The tokens from the position of the parser on.\<close>

definition remaining :: "parser \<Rightarrow> token list" where
  "remaining p = drop (pos p) (tokens p)"

text \<open>The parser \<open>k\<close> tokens further, with the comparison flag set to \<open>h\<close>.\<close>

definition moved :: "nat \<Rightarrow> bool \<Rightarrow> parser \<Rightarrow> parser" where
  "moved k h p = p\<lparr>pos := pos p + k, hasTopLevelComparison := h\<rparr>"

text \<open>
  What a parsing function is expected to do on the tokens \<open>ts\<close> of a piece of syntax
  whose tree is \<open>a\<close>, with \<open>d\<close> parentheses open: throw the first error of the mode
  rules on \<open>ts\<close> if there is one, and return \<open>a\<close> after \<open>ts\<close> otherwise.
\<close>

definition outcome :: "nat \<Rightarrow> parser \<Rightarrow> token list \<Rightarrow> 'a \<Rightarrow> (error + 'a \<times> parser) option" where
  "outcome d p ts a =
    (case scan (mode p) (hasTopLevelComparison p, d) ts of
       Inl e \<Rightarrow> Some (Inl e)
     | Inr s \<Rightarrow> Some (Inr (a, moved (length ts) (fst s) p)))"

text \<open>A token list that cannot continue a chain: it starts with a token that is no operator.\<close>

definition endsChain :: "token list \<Rightarrow> bool" where
  "endsChain r = (case r of [] \<Rightarrow> False | t # _ \<Rightarrow> (case t of OPERATOR op \<Rightarrow> False | _ \<Rightarrow> True))"

text \<open>Scanning leaves the number of open parentheses as it was.\<close>

definition balanced :: "token list \<Rightarrow> bool" where
  "balanced ts = (\<forall>m h d h' d'. scan m (h, d) ts = Inr (h', d') \<longrightarrow> d' = d)"

text \<open>
  The parser does on the tokens of a primary, of an expression and of an argument
  list what is expected of it, given enough fuel.
\<close>

definition primOK :: "prim \<Rightarrow> bool" where
  "primOK q =
    (\<forall>n (p::parser) r d. remaining p = toksPrim q @ r \<longrightarrow> 3 * length (remaining p) + 1 \<le> n \<longrightarrow>
       parsePrimary n p = outcome d p (toksPrim q) (refPrim q))"

definition exprOK :: "expr \<Rightarrow> bool" where
  "exprOK e =
    (\<forall>n (p::parser) r d tp. remaining p = toksExpr e @ r \<longrightarrow> endsChain r \<longrightarrow>
       3 * length (remaining p) + 2 \<le> n \<longrightarrow> (tp \<longleftrightarrow> d = 0) \<longrightarrow>
       parseExpression n 0 tp p = outcome d p (toksExpr e) (refExpr e))"

definition argsOK :: "expr list \<Rightarrow> bool" where
  "argsOK es =
    (\<forall>n (p::parser) r d acc. remaining p = toksArgs es @ RPAREN # r \<longrightarrow>
       3 * length (remaining p) + 3 \<le> n \<longrightarrow> d \<noteq> 0 \<longrightarrow>
       parseArgs n acc p = outcome d p (toksArgs es) (acc @ refArgs es))"

definition opsOK :: "(operator \<times> prim) list \<Rightarrow> bool" where
  "opsOK ops = (\<forall>x\<in>set ops. primOK (snd x))"

text \<open>
  Modelled from the spec: the verdict of the mode rules on the comparison operators
  of an expression, each with the number of parentheses open at it. In arithmetic mode
  the first comparison is the error. In predicate mode a comparison inside parentheses
  is an error, and so is a second one at the top level; the result is whether a
  top-level comparison was met.
\<close>

fun mathVerdict :: "(operator \<times> nat) list \<Rightarrow> error + unit" where
  "mathVerdict [] = Inr ()"
| "mathVerdict ((op, k) # cs) = Inl (ComparisonInMath op)"

fun isVerdict :: "bool \<Rightarrow> (operator \<times> nat) list \<Rightarrow> error + bool" where
  "isVerdict seen [] = Inr seen"
| "isVerdict seen ((op, k) # cs) =
    (if k \<noteq> 0 then Inl (ComparisonNotTopLevel op)
     else if seen then Inl ChainedComparison
     else isVerdict True cs)"

text \<open>
  \<open>scanned p p' seg\<close>: from \<open>p\<close> to \<open>p'\<close> the parser has consumed the tokens \<open>seg\<close>.
\<close>

definition scanned :: "parser \<Rightarrow> parser \<Rightarrow> token list \<Rightarrow> bool" where
  "scanned p p' seg = (remaining p = seg @ remaining p' \<and> mode p' = mode p)"

definition scansTo :: "parser \<Rightarrow> parser \<Rightarrow> token list \<Rightarrow> nat \<Rightarrow> bool" where
  "scansTo p p' seg d =
    (scan (mode p) (hasTopLevelComparison p, d) seg = Inr (hasTopLevelComparison p', d))"

text \<open>
  \<open>consumed p p' D\<close>: from \<open>p\<close> to \<open>p'\<close> the parser has consumed tokens that the mode
  rules accept at every depth \<open>d\<close> with \<open>D d\<close>, and its comparison flag has followed.
\<close>

definition consumed :: "parser \<Rightarrow> parser \<Rightarrow> (nat \<Rightarrow> bool) \<Rightarrow> bool" where
  "consumed p p' D = (\<exists>seg. scanned p p' seg \<and> (\<forall>d. D d \<longrightarrow> scansTo p p' seg d))"

section \<open>The tokenizer\<close>

lemma isDigit_not_special:
  assumes "isDigit d"
  shows "d \<noteq> CHR '' ''" "d \<noteq> CHR 0x09" "d \<noteq> CHR 0x0A" "d \<noteq> CHR ''(''" "d \<noteq> CHR '')''"
    "d \<noteq> CHR '',''" "d \<noteq> CHR ''*''" "d \<noteq> CHR ''=''" "d \<noteq> CHR ''!''" "d \<noteq> CHR ''<''"
    "d \<noteq> CHR ''>''" "d \<noteq> CHR ''+''" "d \<noteq> CHR ''-''" "d \<noteq> CHR ''/''"
  using assms by (auto simp: isDigit_def)

lemma tokenizeStr_digit:
  assumes "isDigit d"
  shows "tokenizeStr (d # cs) =
    push (NUMBER (d # takeWhile (\<lambda>x. isDigit x \<or> x = CHR ''.'') cs))
         (tokenizeStr (dropWhile (\<lambda>x. isDigit x \<or> x = CHR ''.'') cs))"
  using assms isDigit_not_special [OF assms] by simp

lemma run_split:
  assumes "\<forall>c\<in>set run. P c" "rest = [] \<or> \<not> P (hd rest)"
  shows "takeWhile P (run @ rest) = run" "dropWhile P (run @ rest) = rest"
  using assms by (cases rest; simp)+

text \<open>
  Claim C9. When the tokenizer stands at a digit \<open>d\<close> followed by a run of digits and
  decimal points that cannot be extended (the string ends, or goes on with another
  character), it pushes the single token \<open>NUMBER (d # run)\<close>, however many decimal
  points the run holds, and goes on after the run; a string that is such a run alone
  tokenizes without error.
\<close>

theorem number_run_is_one_token:
  assumes "isDigit d"
    and "\<forall>c\<in>set run. isDigit c \<or> c = CHR ''.''"
    and "rest = [] \<or> \<not> (isDigit (hd rest) \<or> hd rest = CHR ''.'')"
  shows "tokenizeStr (d # run @ rest) = push (NUMBER (d # run)) (tokenizeStr rest)
       \<and> tokenize [d # run] = Inr [NUMBER (d # run), EOF]"
proof -
  have 1: "tokenizeStr (d # run @ rest) = push (NUMBER (d # run)) (tokenizeStr rest)"
    using run_split [of run "\<lambda>x. isDigit x \<or> x = CHR ''.''" rest] assms
    by (simp only: tokenizeStr_digit [OF assms(1)])
  have "takeWhile (\<lambda>x. isDigit x \<or> x = CHR ''.'') run = run"
    and "dropWhile (\<lambda>x. isDigit x \<or> x = CHR ''.'') run = []"
    using assms(2) by simp_all
  then have "tokenizeStr (d # run) = push (NUMBER (d # run)) (tokenizeStr [])"
    by (simp only: tokenizeStr_digit [OF assms(1)])
  then have 2: "tokenize [d # run] = Inr [NUMBER (d # run), EOF]"
    by (simp add: tokenize_def push_def)
  from 1 2 show ?thesis ..
qed

theorem number_run_is_one_token_witness:
  "tokenizeStr ''1.2.3 + 4'' = push (NUMBER ''1.2.3'') (tokenizeStr '' + 4'')
   \<and> tokenize [''1.2.3''] = Inr [NUMBER ''1.2.3'', EOF]
   \<and> tokenize [''1.2.3 + 4''] = Inr [NUMBER ''1.2.3'', OPERATOR OpAdd, NUMBER ''4'', EOF]"
proof -
  have "tokenize [''1.2.3 + 4''] = Inr [NUMBER ''1.2.3'', OPERATOR OpAdd, NUMBER ''4'', EOF]"
    by code_simp
  then show ?thesis
    using number_run_is_one_token [of "CHR ''1''" "''.2.3''" "'' + 4''"]
    by (simp add: isDigit_def)
qed

section \<open>Basic facts about the parser\<close>

lemma advance_simps [simp]:
  "tokens (advance p) = tokens p" "mode (advance p) = mode p"
  "hasTopLevelComparison (advance p) = hasTopLevelComparison p" "pos (advance p) = Suc (pos p)"
  by (simp_all add: advance_def)

lemma parsePrimary_SucE:
  assumes "parsePrimary (Suc n) p = Some (Inr (a, p'))"
  obtains
    (Value) i where "current p = Some (VALUE i)" "a = ValueNode i" "p' = advance p"
  | (Number) v where "current p = Some (NUMBER v)" "a = NumberNode v" "p' = advance p"
  | (Function) f args p2 where "current p = Some (FUNCTION f)"
      "current (advance p) = Some LPAREN"
      "parseArgs n [] (advance (advance p)) = Some (Inr (args, p2))"
      "f \<in> set validFunctions"
      "(f = ''clamp'' \<and> length args = 3) \<or> (f \<noteq> ''clamp'' \<and> length args = 1)"
      "a = FunctionNode f args" "p' = advance p2"
  | (Unary) op operand where "current p = Some (OPERATOR op)" "op = OpAdd \<or> op = OpSub"
      "parsePrimary n (advance p) = Some (Inr (operand, p'))" "a = UnaryNode op operand"
  | (Paren) p1 where "current p = Some LPAREN"
      "parseExpression n 0 False (advance p) = Some (Inr (a, p1))"
      "current p1 = Some RPAREN" "p' = advance p1"
proof (cases "current p")
  case None
  with assms show ?thesis by simp
next
  case (Some t)
  show ?thesis
  proof (cases t)
    case (VALUE i)
    with Some assms Value show ?thesis by simp
  next
    case (NUMBER v)
    with Some assms Number show ?thesis by simp
  next
    case (OPERATOR op)
    with Some assms Unary show ?thesis
      by (simp split: if_splits option.splits sum.splits prod.splits)
  next
    case (FUNCTION f)
    with Some assms Function [of f] show ?thesis
      by (auto simp add: Let_def split: if_splits option.splits sum.splits prod.splits)
  next
    case LPAREN
    with Some assms Paren show ?thesis
      by (simp split: if_splits option.splits sum.splits prod.splits)
  next
    case RPAREN
    with Some assms show ?thesis by simp
  next
    case COMMA
    with Some assms show ?thesis by simp
  next
    case EOF
    with Some assms show ?thesis by simp
  qed
qed

lemma parseArgs_SucE:
  assumes "parseArgs (Suc n) args p = Some (Inr (as, p'))"
  obtains
    (Done) "current p = Some RPAREN" "as = args" "p' = p"
  | (Comma) arg p1 where "current p \<noteq> Some RPAREN"
      "parseExpression n 0 False p = Some (Inr (arg, p1))" "current p1 = Some COMMA"
      "parseArgs n (args @ [arg]) (advance p1) = Some (Inr (as, p'))"
  | (Last) arg p1 where "current p \<noteq> Some RPAREN"
      "parseExpression n 0 False p = Some (Inr (arg, p1))" "current p1 = Some RPAREN"
      "parseArgs n (args @ [arg]) p1 = Some (Inr (as, p'))"
  using assms
  by (simp split: if_splits option.splits sum.splits prod.splits)

lemma parseExpression_SucE:
  assumes "parseExpression (Suc n) m tp p = Some (Inr (a, p'))"
  obtains left p1 where "parsePrimary n p = Some (Inr (left, p1))"
    "parseLoop n m tp left p1 = Some (Inr (a, p'))"
  using assms
  by (simp split: if_splits option.splits sum.splits prod.splits)

lemma parseLoop_SucE:
  assumes "parseLoop (Suc n) m tp left p = Some (Inr (a, p'))"
  obtains
    (Stop) "\<forall>op. current p = Some (OPERATOR op) \<longrightarrow> PRECEDENCE op < m" "current p \<noteq> None"
      "a = left" "p' = p"
  | (Step) op right p3 where "current p = Some (OPERATOR op)" "\<not> PRECEDENCE op < m"
      "\<not> (op \<in> COMPARISON_OPS \<and> mode p = ''math'')"
      "\<not> (op \<in> COMPARISON_OPS \<and> mode p = ''is'' \<and> \<not> tp)"
      "\<not> (op \<in> COMPARISON_OPS \<and> mode p = ''is'' \<and> hasTopLevelComparison p)"
      "parseExpression n (if op \<in> RIGHT_ASSOC then PRECEDENCE op else PRECEDENCE op + 1) tp
         (advance (if op \<in> COMPARISON_OPS \<and> mode p = ''is''
                   then p\<lparr>hasTopLevelComparison := True\<rparr> else p)) = Some (Inr (right, p3))"
      "parseLoop n m tp (BinaryNode op left right) p3 = Some (Inr (a, p'))"
proof (cases "current p")
  case None
  with assms show ?thesis by simp
next
  case (Some t)
  show ?thesis
  proof (cases "\<exists>op. t = OPERATOR op")
    case False
    with Some assms have "a = left \<and> p' = p" by (cases t) simp_all
    with False Some show ?thesis by (intro Stop) auto
  next
    case True
    then obtain op where t: "t = OPERATOR op" by blast
    show ?thesis
    proof (cases "PRECEDENCE op < m")
      case True
      with t Some assms have "a = left \<and> p' = p" by simp
      with True t Some show ?thesis by (intro Stop) auto
    next
      case False
      have c1: "\<not> (op \<in> COMPARISON_OPS \<and> mode p = ''math'')"
        using assms Some t False by (auto simp: Let_def)
      have c2: "\<not> (op \<in> COMPARISON_OPS \<and> mode p = ''is'' \<and> \<not> tp)"
        using assms Some t False c1 by (auto simp: Let_def split: if_splits)
      have c3: "\<not> (op \<in> COMPARISON_OPS \<and> mode p = ''is'' \<and> hasTopLevelComparison p)"
        using assms Some t False c1 c2 by (auto simp: Let_def split: if_splits)
      define p2 where "p2 = advance (if op \<in> COMPARISON_OPS \<and> mode p = ''is''
                   then p\<lparr>hasTopLevelComparison := True\<rparr> else p)"
      define m' where "m' = (if op \<in> RIGHT_ASSOC then PRECEDENCE op else PRECEDENCE op + 1)"
      have eq: "parseLoop (Suc n) m tp left p =
         (case parseExpression n m' tp p2 of
                 None \<Rightarrow> None
               | Some (Inl e) \<Rightarrow> Some (Inl e)
               | Some (Inr (right, p3)) \<Rightarrow>
                  parseLoop n m tp (BinaryNode op left right) p3)"
        unfolding p2_def m'_def using Some t False c1 c2 c3 by (auto simp add: Let_def)
      from assms [unfolded eq] obtain right p3 where
        "parseExpression n m' tp p2 = Some (Inr (right, p3))"
        "parseLoop n m tp (BinaryNode op left right) p3 = Some (Inr (a, p'))"
        by (auto split: option.splits sum.splits prod.splits)
      then show ?thesis
        using Step [of op right p3] Some t False c1 c2 c3 unfolding p2_def m'_def by blast
    qed
  qed
qed

section \<open>The interpreter\<close>

lemma at_simps [simp]:
  "at (x # xs) 0 = x" "at (x # xs) (Suc i) = at xs i" "at [] i = Undefined"
  by (simp_all add: at_def)

lemma at_numeral [simp]:
  "at (x # y # xs) 1 = y" "at (x # y # z # xs) 2 = z"
  by (simp_all add: at_def)

text \<open>
  Claim C8. \<open>sum\<close> of one argument: when the argument evaluates to an array the result
  is the backend's variadic sum of the number \<open>0\<close> followed by the elements of the
  array, so of \<open>0\<close> alone when the array is empty; when the argument evaluates to
  anything but an array the failure is \<open>sum() requires an array argument\<close>.
\<close>

theorem sum_takes_an_array:
  fixes D :: "('d, 'n::zero) backend"
  shows "(interpretNode a vals D = Inr (Arr arr) \<longrightarrow>
           interpretNode (FunctionNode ''sum'' [a]) vals D =
             (case d_sum D (Scalar (Num 0) # arr) of Inl e \<Rightarrow> Inl e | Inr d \<Rightarrow> Inr (Dec d)))
       \<and> (interpretNode a vals D = Inr (Arr []) \<longrightarrow>
           interpretNode (FunctionNode ''sum'' [a]) vals D =
             (case d_sum D [Scalar (Num 0)] of Inl e \<Rightarrow> Inl e | Inr d \<Rightarrow> Inr (Dec d)))
       \<and> (interpretNode a vals D = Inr v \<and> (\<forall>xs. v \<noteq> Arr xs) \<longrightarrow>
           interpretNode (FunctionNode ''sum'' [a]) vals D = Inl SumRequiresArray)"
proof (intro conjI impI)
  assume "interpretNode a vals D = Inr (Arr arr)"
  then show "interpretNode (FunctionNode ''sum'' [a]) vals D =
      (case d_sum D (Scalar (Num 0) # arr) of Inl e \<Rightarrow> Inl e | Inr d \<Rightarrow> Inr (Dec d))"
    by simp
next
  assume "interpretNode a vals D = Inr (Arr [])"
  then show "interpretNode (FunctionNode ''sum'' [a]) vals D =
      (case d_sum D [Scalar (Num 0)] of Inl e \<Rightarrow> Inl e | Inr d \<Rightarrow> Inr (Dec d))"
    by simp
next
  assume "interpretNode a vals D = Inr v \<and> (\<forall>xs. v \<noteq> Arr xs)"
  then show "interpretNode (FunctionNode ''sum'' [a]) vals D = Inl SumRequiresArray"
    by (cases v) simp_all
qed

theorem sum_takes_an_array_witness:
  "interpretNode (FunctionNode ''sum'' [ValueNode 0])
     [Arr [Scalar (Num 1), Scalar (Num 2), Scalar (Num 3), Scalar (Num 4), Scalar (Num 5)]]
     intBackend = Inr (Dec 15)
   \<and> interpretNode (FunctionNode ''sum'' [ValueNode 0]) [Arr []] intBackend = Inr (Dec 0)
   \<and> interpretNode (FunctionNode ''sum'' [ValueNode 0]) [Dec 7] intBackend = Inl SumRequiresArray"
proof -
  let ?five = "[Scalar (Num 1), Scalar (Num 2), Scalar (Num 3), Scalar (Num 4), Scalar (Num 5)]
                 :: (int, int) jsval list"
  have a: "interpretNode (ValueNode 0) [Arr ?five] intBackend = Inr (Arr ?five)"
    and b: "interpretNode (ValueNode 0) [Arr []] intBackend = Inr (Arr [])"
    and c: "interpretNode (ValueNode 0) [Dec 7] intBackend = Inr (Dec 7)
              \<and> (\<forall>xs. (Dec 7 :: (int, int) jsval) \<noteq> Arr xs)"
    by simp_all
  show ?thesis
    using sum_takes_an_array [of "ValueNode 0" "[Arr ?five]" intBackend ?five "Dec 7"] a
      sum_takes_an_array [of "ValueNode 0" "[Arr []]" intBackend "[]" "Dec 7"] b
      sum_takes_an_array [of "ValueNode 0" "[Dec 7]" intBackend "[]" "Dec 7"] c
    by (simp add: intBackend_def)
qed

text \<open>
  Claim C3 (the code departs from it). \<open>math\<close> on the template \<open>${x}\<close>, whose two
  strings are empty, with an array for \<open>x\<close>: the tree is the value reference alone,
  the array passes the preprocessing unchanged, and \<open>math\<close> returns the array itself.
\<close>

theorem math_returns_the_array:
  fixes D :: "('d, 'n::zero) backend"
  shows "fst (math D create \<lparr>ident = 0, strings = ['''', '''']\<rparr> [Arr xs]) = Some (Inr (Arr xs))"
proof -
  have "parseMath ['''', ''''] = Some (Inr (ValueNode 0))"
    by code_simp
  then show ?thesis
    by (simp add: math_def create_def evaluate_def)
qed

text \<open>
  Claim C4 (the code departs from it). \<open>clamp\<close> with an array as its second argument:
  the interpreter checks nothing and hands the array to the \<open>clamp\<close> method of the
  backend, whose result, or exception, is the outcome. With an array as the argument of
  \<open>abs\<close> the failure is the engine's "is not a function", not an assertion of the
  interpreter.
\<close>

theorem clamp_passes_array_to_backend:
  fixes D :: "('d, 'n::zero) backend"
  shows "fst (math D create \<lparr>ident = 0, strings = [''clamp('', '','', '','', '')'']\<rparr>
                [Dec x, Arr ys, Dec z])
           = Some (case d_clamp D x (Arr ys) (Dec z) of Inl e \<Rightarrow> Inl e | Inr r \<Rightarrow> Inr (Dec r))
       \<and> fst (math D create \<lparr>ident = 0, strings = [''abs('', '')'']\<rparr> [Arr ys])
           = Some (Inl (NativeTypeError ''args[0].abs is not a function''))"
proof -
  have 1: "parseMath [''clamp('', '','', '','', '')'']
      = Some (Inr (FunctionNode ''clamp'' [ValueNode 0, ValueNode 1, ValueNode 2]))"
    by code_simp
  have 2: "parseMath [''abs('', '')''] = Some (Inr (FunctionNode ''abs'' [ValueNode 0]))"
    by code_simp
  show ?thesis
    by (simp add: math_def create_def evaluate_def 1 2 callMethod_def)
qed

section \<open>Value indices stay in range\<close>

lemma push_Inr: "push t r = Inr ts \<longleftrightarrow> (\<exists>ts'. r = Inr ts' \<and> ts = t # ts')"
  by (cases r) (auto simp: push_def)

lemma Inr_push: "Inr ts = push t r \<longleftrightarrow> (\<exists>ts'. r = Inr ts' \<and> ts = t # ts')"
  by (cases r) (auto simp: push_def)

lemma tokStep_intros:
  "length cs' \<le> length cs \<Longrightarrow> tokStep cs (tokenizeStr cs')"
  "length cs' \<le> length cs \<Longrightarrow> (\<And>i. t \<noteq> VALUE i) \<Longrightarrow> t \<noteq> EOF
    \<Longrightarrow> tokStep cs (push t (tokenizeStr cs'))"
  "tokStep cs (Inl e)"
  unfolding tokStep_def by blast+

lemma tokenizeStr_step: "tokStep cs (tokenizeStr (c # cs))"
  by (simp add: tokStep_intros length_dropWhile_le)

lemma tokenizeStr_no_VALUE: "tokenizeStr s = Inr ts \<Longrightarrow> VALUE i \<notin> set ts \<and> EOF \<notin> set ts"
proof (induction "length s" arbitrary: s ts rule: less_induct)
  case less
  show ?case
  proof (cases s)
    case Nil
    with less.prems show ?thesis by simp
  next
    case (Cons c cs)
    from tokenizeStr_step [of cs c] less.prems Cons
    consider cs' where "length cs' \<le> length cs" "tokenizeStr cs' = Inr ts"
      | cs' t ts' where "length cs' \<le> length cs" "\<forall>i. t \<noteq> VALUE i" "t \<noteq> EOF"
          "tokenizeStr cs' = Inr ts'" "ts = t # ts'"
      unfolding tokStep_def by (auto simp: push_Inr Inr_push simp del: tokenizeStr.simps)
    then show ?thesis
    proof cases
      case 1
      then show ?thesis using less.hyps [of cs' ts] Cons by simp
    next
      case 2
      then show ?thesis using less.hyps [of cs' ts'] Cons by auto
    qed
  qed
qed

lemma tokenizeFrom_VALUE:
  "tokenizeFrom i strs = Inr ts \<Longrightarrow> VALUE j \<in> set ts \<Longrightarrow> i \<le> j \<and> Suc j < i + length strs"
proof (induction strs arbitrary: i ts)
  case Nil
  then show ?case by simp
next
  case (Cons str strs)
  from Cons.prems(1) obtain ts1 rest where
    1: "tokenizeStr str = Inr ts1" and 2: "tokenizeFrom (Suc i) strs = Inr rest"
    and ts: "ts = ts1 @ (if strs \<noteq> [] then [VALUE i] else []) @ rest"
    by (auto split: sum.splits)
  from Cons.prems(2) ts tokenizeStr_no_VALUE [OF 1]
  consider "strs \<noteq> []" "j = i" | "VALUE j \<in> set rest"
    by (auto split: if_splits)
  then show ?case
  proof cases
    case 1
    then show ?thesis by (cases strs) simp_all
  next
    case 2
    from Cons.IH [OF \<open>tokenizeFrom (Suc i) strs = Inr rest\<close> 2] show ?thesis by simp
  qed
qed

lemma tokenize_VALUE:
  assumes "tokenize template = Inr ts" "VALUE j \<in> set ts"
  shows "Suc j < length template"
proof -
  from assms obtain ts' where "tokenizeFrom 0 template = Inr ts'" "ts = ts' @ [EOF]"
    by (auto simp: tokenize_def split: sum.splits)
  with assms(2) tokenizeFrom_VALUE [of 0 template ts' j] show ?thesis by auto
qed

lemma current_in_tokens: "current p = Some t \<Longrightarrow> t \<in> set (tokens p)"
  by (auto simp: current_def split: if_splits)

lemma parse_valueIndices:
  "(\<forall>p a p'. parsePrimary n p = Some (Inr (a, p')) \<longrightarrow>
      tokens p' = tokens p \<and> valueIndices a \<subseteq> slots (tokens p)) \<and>
   (\<forall>args p as p'. parseArgs n args p = Some (Inr (as, p')) \<longrightarrow>
      tokens p' = tokens p \<and> valueIndicesList as \<subseteq> valueIndicesList args \<union> slots (tokens p)) \<and>
   (\<forall>m tp p a p'. parseExpression n m tp p = Some (Inr (a, p')) \<longrightarrow>
      tokens p' = tokens p \<and> valueIndices a \<subseteq> slots (tokens p)) \<and>
   (\<forall>m tp l p a p'. parseLoop n m tp l p = Some (Inr (a, p')) \<longrightarrow>
      tokens p' = tokens p \<and> valueIndices a \<subseteq> valueIndices l \<union> slots (tokens p))"
proof (induction n)
  case 0
  show ?case by simp
next
  case (Suc n)
  have P: "tokens p' = tokens p \<and> valueIndices a \<subseteq> slots (tokens p)"
    if "parsePrimary n p = Some (Inr (a, p'))" for p a p'
    using Suc [THEN conjunct1, rule_format, OF that] .
  have A: "tokens p' = tokens p \<and> valueIndicesList as \<subseteq> valueIndicesList args \<union> slots (tokens p)"
    if "parseArgs n args p = Some (Inr (as, p'))" for args p as p'
    using Suc [THEN conjunct2, THEN conjunct1, rule_format, OF that] .
  have E: "tokens p' = tokens p \<and> valueIndices a \<subseteq> slots (tokens p)"
    if "parseExpression n m tp p = Some (Inr (a, p'))" for m tp p a p'
    using Suc [THEN conjunct2, THEN conjunct2, THEN conjunct1, rule_format, OF that] .
  have L: "tokens p' = tokens p \<and> valueIndices a \<subseteq> valueIndices l \<union> slots (tokens p)"
    if "parseLoop n m tp l p = Some (Inr (a, p'))" for m tp l p a p'
    using Suc [THEN conjunct2, THEN conjunct2, THEN conjunct2, rule_format, OF that] .
  have 1: "tokens p' = tokens p \<and> valueIndices a \<subseteq> slots (tokens p)"
    if "parsePrimary (Suc n) p = Some (Inr (a, p'))" for p a p'
    using that
  proof (cases rule: parsePrimary_SucE)
    case (Value i)
    then show ?thesis using current_in_tokens [of p] by (simp add: slots_def)
  next
    case (Number v)
    then show ?thesis by simp
  next
    case (Function f args p2)
    with A [OF Function(3)] show ?thesis by simp
  next
    case (Unary op operand)
    with P [OF Unary(3)] show ?thesis by simp
  next
    case (Paren p1)
    with E [OF Paren(2)] show ?thesis by simp
  qed
  have valueIndicesList_snoc: "valueIndicesList (xs @ [x]) = valueIndicesList xs \<union> valueIndices x" for xs x
    by (induction xs) auto
  have 2: "tokens p' = tokens p \<and> valueIndicesList as \<subseteq> valueIndicesList args \<union> slots (tokens p)"
    if "parseArgs (Suc n) args p = Some (Inr (as, p'))" for args p as p'
    using that
  proof (cases rule: parseArgs_SucE)
    case Done
    then show ?thesis by simp
  next
    case (Comma arg p1)
    with E [OF Comma(2)] A [OF Comma(4)] show ?thesis
      by (auto simp: valueIndicesList_snoc)
  next
    case (Last arg p1)
    with E [OF Last(2)] A [OF Last(4)] show ?thesis
      by (auto simp: valueIndicesList_snoc)
  qed
  have 3: "tokens p' = tokens p \<and> valueIndices a \<subseteq> slots (tokens p)"
    if "parseExpression (Suc n) m tp p = Some (Inr (a, p'))" for m tp p a p'
    using that
  proof (cases rule: parseExpression_SucE)
    case (1 left p1)
    with P [OF 1(1)] L [OF 1(2)] show ?thesis by auto
  qed
  have 4: "tokens p' = tokens p \<and> valueIndices a \<subseteq> valueIndices l \<union> slots (tokens p)"
    if "parseLoop (Suc n) m tp l p = Some (Inr (a, p'))" for m tp l p a p'
    using that
  proof (cases rule: parseLoop_SucE)
    case Stop
    then show ?thesis by simp
  next
    case (Step op right p3)
    with E [OF Step(6)] L [OF Step(7)] show ?thesis by (auto split: if_splits)
  qed
  show ?case using 1 2 3 4 by blast
qed


lemma preprocessValues_length:
  "preprocessValues vals D = Inr pv \<Longrightarrow> length pv = length vals"
  by (induction vals arbitrary: pv) (auto split: sum.splits jsval.splits)

lemma parseMath_valueIndices:
  assumes "parseMath template = Some (Inr ast)"
  obtains ts where "tokenize template = Inr ts" "valueIndices ast \<subseteq> slots ts"
proof -
  from assms obtain ts where ts: "tokenize template = Inr ts"
    by (auto simp: parseMath_def split: sum.splits)
  with assms obtain p' where
    "parseExpression (parseFuel ts) 0 True (ASTParser ts ''math'') = Some (Inr (ast, p'))"
    by (auto simp: parseMath_def split: sum.splits option.splits if_splits)
  from parse_valueIndices [of "parseFuel ts", THEN conjunct2, THEN conjunct2, THEN conjunct1,
      rule_format, OF this]
  have "valueIndices ast \<subseteq> slots ts" by (simp add: ASTParser_def)
  with ts that show ?thesis by blast
qed

lemma parseIs_valueIndices:
  assumes "parseIs template = Some (Inr ast)"
  obtains ts where "tokenize template = Inr ts" "valueIndices ast \<subseteq> slots ts"
proof -
  from assms obtain ts where ts: "tokenize template = Inr ts"
    by (auto simp: parseIs_def split: sum.splits)
  with assms obtain p' where
    "parseExpression (parseFuel ts) 0 True (ASTParser ts ''is'') = Some (Inr (ast, p'))"
    by (auto simp: parseIs_def split: sum.splits option.splits if_splits)
  from parse_valueIndices [of "parseFuel ts", THEN conjunct2, THEN conjunct2, THEN conjunct1,
      rule_format, OF this]
  have "valueIndices ast \<subseteq> slots ts" by (simp add: ASTParser_def)
  with ts that show ?thesis by blast
qed

text \<open>
  Claim C10. With one string more than values: every \<open>VALUE\<close> token of the tokenizer
  carries an index below the number of values; and every index at which the
  interpreter reads the preprocessed values, for a tree parsed by \<open>math\<close> or by \<open>is\<close>,
  is below their number, so that the read is the element at that index and never
  out of range.
\<close>

theorem value_indices_in_range:
  fixes D :: "('d, 'n::zero) backend"
  assumes "length template = length vals + 1"
  shows "(\<forall>ts i. tokenize template = Inr ts \<and> VALUE i \<in> set ts \<longrightarrow> i < length vals)
       \<and> (\<forall>ast pv i. (parseMath template = Some (Inr ast) \<or> parseIs template = Some (Inr ast))
             \<and> preprocessValues vals D = Inr pv \<and> i \<in> valueIndices ast
             \<longrightarrow> i < length pv \<and> at pv i = pv ! i)"
proof (intro conjI allI impI)
  fix ts i
  assume "tokenize template = Inr ts \<and> VALUE i \<in> set ts"
  then show "i < length vals"
    using tokenize_VALUE [of template ts i] assms by simp
next
  fix ast pv i
  assume a: "(parseMath template = Some (Inr ast) \<or> parseIs template = Some (Inr ast))
      \<and> preprocessValues vals D = Inr pv \<and> i \<in> valueIndices ast"
  then obtain ts where ts: "tokenize template = Inr ts" "valueIndices ast \<subseteq> slots ts"
    using parseMath_valueIndices [of template ast] parseIs_valueIndices [of template ast]
    by blast
  with a have "VALUE i \<in> set ts" by (auto simp: slots_def)
  with ts(1) have "i < length vals"
    using tokenize_VALUE [of template ts i] assms by simp
  moreover from a have "length pv = length vals"
    using preprocessValues_length by blast
  ultimately show "i < length pv" and "at pv i = pv ! i"
    by (simp_all add: at_def)
qed

theorem value_indices_in_range_witness:
  "length [''sum('', '') * '', []] = length [Arr [Dec 1, Dec 2], Dec (3::int)] + 1
   \<and> tokenize [''sum('', '') * '', []]
       = Inr [FUNCTION ''sum'', LPAREN, VALUE 0, RPAREN, OPERATOR OpMul, VALUE 1, EOF]
   \<and> parseMath [''sum('', '') * '', []]
       = Some (Inr (BinaryNode OpMul (FunctionNode ''sum'' [ValueNode 0]) (ValueNode 1)))
   \<and> preprocessValues [Arr [Dec 1, Dec 2], Dec 3] intBackend = Inr [Arr [Dec 1, Dec 2], Dec 3]
   \<and> (1::nat) < length [Arr [Dec 1, Dec 2], Dec (3::int)]
   \<and> at [Arr [Dec 1, Dec 2], Dec (3::int)] 1 = [Arr [Dec 1, Dec 2], Dec 3] ! 1"
proof -
  let ?t = "[''sum('', '') * '', []]"
  let ?v = "[Arr [Dec 1, Dec 2], Dec 3] :: (int, int) jsval list"
  let ?a = "BinaryNode OpMul (FunctionNode ''sum'' [ValueNode 0]) (ValueNode 1)"
  have l: "length ?t = length ?v + 1" by simp
  have t: "tokenize ?t = Inr [FUNCTION ''sum'', LPAREN, VALUE 0, RPAREN, OPERATOR OpMul, VALUE 1, EOF]"
    by code_simp
  have p: "parseMath ?t = Some (Inr ?a)"
    by code_simp
  have v: "preprocessValues ?v intBackend = Inr ?v" by simp
  have i: "(1::nat) \<in> valueIndices ?a" by simp
  from value_indices_in_range [of ?t ?v intBackend, OF l]
  have "(parseMath ?t = Some (Inr ?a) \<or> parseIs ?t = Some (Inr ?a))
      \<and> preprocessValues ?v intBackend = Inr ?v \<and> 1 \<in> valueIndices ?a
      \<longrightarrow> 1 < length ?v \<and> at ?v 1 = ?v ! 1"
    by blast
  with p v i have "1 < length ?v \<and> at ?v 1 = ?v ! 1" by blast
  with l t p v show ?thesis by simp
qed

section \<open>The caches\<close>

lemma cachesSound_create: "cachesSound h create"
  by (simp add: cachesSound_def create_def)

lemma math_fresh:
  assumes "cachesSound h c" "strings t = h (ident t)"
  shows "fst (math D c t vals) = freshMath D (strings t) vals"
  using assms
  by (auto simp: math_def freshMath_def cachesSound_def split: option.splits sum.splits)

lemma is_fresh:
  assumes "cachesSound h c" "strings t = h (ident t)"
  shows "fst (is' D c t vals) = freshIs D (strings t) vals"
  using assms
  by (auto simp: is'_def freshIs_def cachesSound_def split: option.splits sum.splits)





lemma cachesSound_parseCount [simp]:
  "cachesSound h (c\<lparr>parseCount := n\<rparr>) = cachesSound h c"
  by (simp add: cachesSound_def)








section \<open>The operator loop computes the reference grouping\<close>

lemma PRECEDENCE_bounds: "1 \<le> PRECEDENCE op" "PRECEDENCE op \<le> 4"
  by (cases op; simp)+

lemma RIGHT_ASSOC_iff: "op \<in> RIGHT_ASSOC \<longleftrightarrow> PRECEDENCE op = 4"
  by (cases op) (simp_all add: RIGHT_ASSOC_def)

lemma climb_Cons:
  "climb f m l ((op, q) # r) =
    (if PRECEDENCE op < m then (l, [], (op, q) # r)
     else
       (case climb f (nextMinPrec op) (f q) r of
          (right, pre1, post1) \<Rightarrow>
            (case climb f m (BinaryNode op l right) post1 of
               (a, pre2, post2) \<Rightarrow> (a, (op, q) # pre1 @ pre2, post2))))"
  by (simp add: nextMinPrec_def)

lemma climb_stop:
  "ops = [] \<or> PRECEDENCE (fst (hd ops)) < m \<Longrightarrow> climb f m l ops = (l, [], ops)"
  by (cases ops) auto

lemma climb_facts:
  "climb f m l ops = (a, pre, post) \<Longrightarrow>
     ops = pre @ post \<and> (\<forall>x\<in>set pre. m \<le> PRECEDENCE (fst x))
     \<and> (post = [] \<or> PRECEDENCE (fst (hd post)) < m)"
proof (induction "length ops" arbitrary: ops m l a pre post rule: less_induct)
  case less
  show ?case
  proof (cases ops)
    case Nil
    with less.prems show ?thesis by simp
  next
    case (Cons x r)
    obtain op q where x: "x = (op, q)" by (cases x)
    show ?thesis
    proof (cases "PRECEDENCE op < m")
      case True
      with less.prems Cons x show ?thesis by auto
    next
      case False
      obtain right pre1 post1 where c1: "climb f (nextMinPrec op) (f q) r = (right, pre1, post1)"
        by (cases "climb f (nextMinPrec op) (f q) r")
      obtain a2 pre2 post2 where c2: "climb f m (BinaryNode op l right) post1 = (a2, pre2, post2)"
        by (cases "climb f m (BinaryNode op l right) post1")
      from less.hyps [OF _ c1] Cons
      have f1: "r = pre1 @ post1" "\<forall>x\<in>set pre1. nextMinPrec op \<le> PRECEDENCE (fst x)"
        by simp_all
      then have "length post1 < length ops" using Cons by simp
      from less.hyps [OF this c2]
      have f2: "post1 = pre2 @ post2" "\<forall>x\<in>set pre2. m \<le> PRECEDENCE (fst x)"
        "post2 = [] \<or> PRECEDENCE (fst (hd post2)) < m"
        by simp_all
      from less.prems Cons x False c1 c2
      have res: "a = a2" "pre = (op, q) # pre1 @ pre2" "post = post2"
        by (simp_all add: climb_Cons del: climb.simps)
      have "m \<le> nextMinPrec op" using False by (simp add: nextMinPrec_def)
      with f1 f2 res Cons x False show ?thesis by fastforce
    qed
  qed
qed

lemma climb_split:
  "m \<le> m' \<Longrightarrow> climb f m l ops =
     (case climb f m' l ops of
        (x, pre1, post1) \<Rightarrow>
          (case climb f m x post1 of (y, pre2, post2) \<Rightarrow> (y, pre1 @ pre2, post2)))"
proof (induction "length ops" arbitrary: ops l rule: less_induct)
  case less
  show ?case
  proof (cases ops)
    case Nil
    then show ?thesis by simp
  next
    case (Cons x r)
    obtain op q where x: "x = (op, q)" by (cases x)
    show ?thesis
    proof (cases "PRECEDENCE op < m'")
      case True
      then have "climb f m' l ops = (l, [], ops)" using Cons x by simp
      then show ?thesis by (simp split: prod.splits)
    next
      case False
      with less.prems have nm: "\<not> PRECEDENCE op < m" by simp
      obtain right pre1 post1 where c1: "climb f (nextMinPrec op) (f q) r = (right, pre1, post1)"
        by (cases "climb f (nextMinPrec op) (f q) r")
      from climb_facts [OF c1] have "length post1 < length ops" using Cons by simp
      from less.hyps [OF this less.prems, of "BinaryNode op l right"]
      have ih: "climb f m (BinaryNode op l right) post1 =
        (case climb f m' (BinaryNode op l right) post1 of
           (x, pre1, post1) \<Rightarrow>
             (case climb f m x post1 of (y, pre2, post2) \<Rightarrow> (y, pre1 @ pre2, post2)))" .
      show ?thesis
        unfolding Cons x
        by (simp add: climb_Cons False nm c1 ih del: climb.simps split: prod.splits)
    qed
  qed
qed

lemma climb_power:
  "climb f 4 a ops = (x, pre, post) \<Longrightarrow> x = rightToLeft a (map (apsnd f) pre)"
proof (induction ops arbitrary: a x pre post)
  case Nil
  then show ?case by simp
next
  case (Cons y r)
  obtain op q where y: "y = (op, q)" by (cases y)
  show ?case
  proof (cases "PRECEDENCE op < 4")
    case True
    with Cons.prems y show ?thesis by simp
  next
    case False
    then have n: "nextMinPrec op = 4"
      using PRECEDENCE_bounds(2) [of op] by (simp add: nextMinPrec_def RIGHT_ASSOC_iff)
    obtain right pre1 post1 where c1: "climb f 4 (f q) r = (right, pre1, post1)"
      by (cases "climb f 4 (f q) r")
    from climb_facts [OF c1] have "post1 = [] \<or> PRECEDENCE (fst (hd post1)) < 4" by simp
    from climb_stop [OF this] have c2: "climb f 4 (BinaryNode op a right) post1
        = (BinaryNode op a right, [], post1)" .
    from Cons.prems y False n c1 c2 have "x = BinaryNode op a right" "pre = (op, q) # pre1"
      by (simp_all add: climb_Cons del: climb.simps)
    with Cons.IH [OF c1] show ?thesis by simp
  qed
qed

lemma notRank_apsnd [simp]: "notRank m (apsnd f y) = (PRECEDENCE (fst y) \<noteq> m)"
  by (simp add: notRank_def)

lemma climb_tail:
  assumes "m < 4" and ok: "levelOK f (Suc m) sub"
  shows "ops = [] \<or> PRECEDENCE (fst (hd ops)) \<le> m \<Longrightarrow> climb f m X ops = (x, pre, post) \<Longrightarrow>
    x = foldl (\<lambda>l (op, piece). BinaryNode op l (sub piece)) X (pieces m (map (apsnd f) pre))"
proof (induction "length ops" arbitrary: ops X x pre post rule: less_induct)
  case less
  show ?case
  proof (cases ops)
    case Nil
    with less.prems show ?thesis by simp
  next
    case (Cons y r)
    obtain op q where y: "y = (op, q)" by (cases y)
    show ?thesis
    proof (cases "PRECEDENCE op < m")
      case True
      with less.prems Cons y show ?thesis by simp
    next
      case False
      with less.prems(1) Cons y have pm: "PRECEDENCE op = m" by simp
      with assms(1) have n: "nextMinPrec op = Suc m"
        by (simp add: nextMinPrec_def RIGHT_ASSOC_iff)
      obtain right pre1 post1 where c1: "climb f (Suc m) (f q) r = (right, pre1, post1)"
        by (cases "climb f (Suc m) (f q) r")
      obtain a2 pre2 post2 where c2: "climb f m (BinaryNode op X right) post1 = (a2, pre2, post2)"
        by (cases "climb f m (BinaryNode op X right) post1")
      from ok c1 have right: "right = sub (f q, map (apsnd f) pre1)"
        unfolding levelOK_def by blast
      from climb_facts [OF c1]
      have f1: "r = pre1 @ post1" "\<forall>x\<in>set pre1. Suc m \<le> PRECEDENCE (fst x)"
        "post1 = [] \<or> PRECEDENCE (fst (hd post1)) < Suc m"
        by simp_all
      then have len: "length post1 < length ops" and hd1: "post1 = [] \<or> PRECEDENCE (fst (hd post1)) \<le> m"
        using Cons by auto
      from less.hyps [OF len hd1 c2]
      have a2: "a2 = foldl (\<lambda>l (op, piece). BinaryNode op l (sub piece)) (BinaryNode op X right)
          (pieces m (map (apsnd f) pre2))" .
      from climb_facts [OF c2]
      have f2: "post1 = pre2 @ post2" "\<forall>x\<in>set pre2. m \<le> PRECEDENCE (fst x)" by simp_all
      have hd2: "pre2 = [] \<or> PRECEDENCE (fst (hd pre2)) = m"
      proof (cases pre2)
        case Nil
        then show ?thesis by simp
      next
        case (Cons z zs)
        with f2 hd1 show ?thesis by auto
      qed
      from less.prems(2) Cons y False n c1 c2
      have res: "x = a2" "pre = (op, q) # pre1 @ pre2"
        by (simp_all add: climb_Cons del: climb.simps)
      have all1: "\<forall>c\<in>set (map (apsnd f) pre1). notRank m c"
        using f1(2) by auto
      have hd2': "map (apsnd f) pre2 = [] \<or> \<not> notRank m (hd (map (apsnd f) pre2))"
        using hd2 by (cases pre2) auto
      have tw: "takeWhile (notRank m) (map (apsnd f) pre1 @ map (apsnd f) pre2) = map (apsnd f) pre1"
        and dw: "dropWhile (notRank m) (map (apsnd f) pre1 @ map (apsnd f) pre2) = map (apsnd f) pre2"
        using run_split [OF all1 hd2'] by simp_all
      show ?thesis
        unfolding res a2 right by (simp add: tw dw)
    qed
  qed
qed

lemma climb_level:
  assumes "m < 4" and ok: "levelOK f (Suc m) sub"
  shows "levelOK f m (leftToRight m sub)"
  unfolding levelOK_def
proof (intro allI impI)
  fix b r x pre post
  assume c: "climb f m b r = (x, pre, post)"
  obtain x1 pre1 post1 where c1: "climb f (Suc m) b r = (x1, pre1, post1)"
    by (cases "climb f (Suc m) b r")
  obtain x2 pre2 post2 where c2: "climb f m x1 post1 = (x2, pre2, post2)"
    by (cases "climb f m x1 post1")
  from climb_split [of m "Suc m" f b r] c c1 c2
  have res: "x = x2" "pre = pre1 @ pre2" by simp_all
  from ok c1 have x1: "x1 = sub (b, map (apsnd f) pre1)"
    unfolding levelOK_def by blast
  from climb_facts [OF c1]
  have f1: "\<forall>x\<in>set pre1. Suc m \<le> PRECEDENCE (fst x)"
    "post1 = [] \<or> PRECEDENCE (fst (hd post1)) \<le> m"
    by auto
  from climb_tail [OF assms f1(2) c2]
  have x2: "x2 = foldl (\<lambda>l (op, piece). BinaryNode op l (sub piece)) x1
      (pieces m (map (apsnd f) pre2))" .
  from climb_facts [OF c2]
  have f2: "post1 = pre2 @ post2" "\<forall>x\<in>set pre2. m \<le> PRECEDENCE (fst x)" by simp_all
  have hd2: "pre2 = [] \<or> PRECEDENCE (fst (hd pre2)) = m"
  proof (cases pre2)
    case Nil
    then show ?thesis by simp
  next
    case (Cons z zs)
    with f2 f1(2) show ?thesis by auto
  qed
  have all1: "\<forall>c\<in>set (map (apsnd f) pre1). notRank m c"
    using f1(1) by auto
  have hd2': "map (apsnd f) pre2 = [] \<or> \<not> notRank m (hd (map (apsnd f) pre2))"
    using hd2 by (cases pre2) auto
  have tw: "takeWhile (notRank m) (map (apsnd f) pre1 @ map (apsnd f) pre2) = map (apsnd f) pre1"
    and dw: "dropWhile (notRank m) (map (apsnd f) pre1 @ map (apsnd f) pre2) = map (apsnd f) pre2"
    using run_split [OF all1 hd2'] by simp_all
  show "x = leftToRight m sub (b, map (apsnd f) pre)"
    unfolding res x2 x1 by (simp add: leftToRight_def tw dw)
qed

lemma levelOK_power: "levelOK f 4 groupPower"
  unfolding levelOK_def groupPower_def using climb_power by fastforce

lemma levelOK_comparison: "levelOK f 1 groupComparison"
proof -
  have "levelOK f (Suc 3) groupPower"
    using levelOK_power [of f] by (simp add: eval_nat_numeral)
  then have "levelOK f 3 groupMultiplicative"
    unfolding groupMultiplicative_def by (intro climb_level) simp_all
  then have "levelOK f (Suc 2) groupMultiplicative"
    by (simp add: eval_nat_numeral)
  then have "levelOK f 2 groupAdditive"
    unfolding groupAdditive_def by (intro climb_level) simp_all
  then have "levelOK f (Suc 1) groupAdditive"
    by (simp add: eval_nat_numeral)
  then show ?thesis
    unfolding groupComparison_def by (intro climb_level) simp_all
qed

lemma climb_top:
  "climb f 0 a ops = (groupComparison (a, map (apsnd f) ops), ops, [])"
proof -
  obtain x1 pre1 post1 where c1: "climb f 1 a ops = (x1, pre1, post1)"
    by (cases "climb f 1 a ops")
  from climb_facts [OF c1] have "post1 = []" "pre1 = ops"
    using PRECEDENCE_bounds(1) [of "fst (hd post1)"] by auto
  moreover from levelOK_comparison c1 have "x1 = groupComparison (a, map (apsnd f) pre1)"
    unfolding levelOK_def by blast
  ultimately show ?thesis
    using climb_split [of 0 1 f a ops] c1 by simp
qed

section \<open>The parser on the tokens of an expression\<close>

lemma remaining_Cons:
  assumes "remaining p = t # ts"
  shows "current p = Some t" and "remaining (advance p) = ts"
proof -
  from assms have d: "drop (pos p) (tokens p) = t # ts" by (simp add: remaining_def)
  then have "pos p < length (tokens p)"
    by (metis drop_all list.distinct(1) not_le)
  moreover from d have "tokens p ! pos p = t" by (rule nth_via_drop)
  ultimately show "current p = Some t" by (simp add: current_def)
  from d show "remaining (advance p) = ts"
    by (simp add: remaining_def advance_def drop_Suc tl_drop [symmetric])
qed

lemma remaining_Nil: "remaining p = [] \<Longrightarrow> current p = None"
  by (simp add: remaining_def current_def)

lemma moved_simps [simp]:
  "tokens (moved k h p) = tokens p" "mode (moved k h p) = mode p"
  "hasTopLevelComparison (moved k h p) = h" "pos (moved k h p) = pos p + k"
  "moved k h (moved k' h' p) = moved (k' + k) h p"
  "moved 0 (hasTopLevelComparison p) p = p"
  by (simp_all add: moved_def)

lemma advance_moved: "advance p = moved 1 (hasTopLevelComparison p) p"
  by (simp add: advance_def moved_def)

lemma flag_moved: "p\<lparr>hasTopLevelComparison := h\<rparr> = moved 0 h p"
  by (simp add: moved_def)

lemma remaining_moved [simp]: "remaining (moved k h p) = drop k (remaining p)"
  by (simp add: remaining_def moved_def add.commute)

lemma scan_append:
  "scan m s (a @ b) = (case scan m s a of Inl e \<Rightarrow> Inl e | Inr s' \<Rightarrow> scan m s' b)"
  by (induction a arbitrary: s) (auto split: sum.splits)

lemma outcome_Nil [simp]: "outcome d p [] a = Some (Inr (a, p))"
  by (simp add: outcome_def)

lemma outcome_append:
  "outcome d p (ts1 @ ts2) a =
    (case scan (mode p) (hasTopLevelComparison p, d) ts1 of
       Inl e \<Rightarrow> Some (Inl e)
     | Inr s \<Rightarrow> outcome (snd s) (moved (length ts1) (fst s) p) ts2 a)"
  by (auto simp: outcome_def scan_append split: sum.splits)

lemma outcome_Cons:
  "outcome d p (t # ts) a =
    (case scanToken (mode p) (hasTopLevelComparison p, d) t of
       Inl e \<Rightarrow> Some (Inl e)
     | Inr s \<Rightarrow> outcome (snd s) (moved 1 (fst s) p) ts a)"
  by (auto simp: outcome_def split: sum.splits)

lemma balanced_Nil: "balanced []"
  by (simp add: balanced_def)

lemma scanToken_depth:
  "scanToken m (h, d) t = Inr (h', d') \<Longrightarrow> t \<noteq> LPAREN \<Longrightarrow> t \<noteq> RPAREN \<Longrightarrow> d' = d"
  by (cases t) (auto split: if_splits)

lemma balanced_single: "t \<noteq> LPAREN \<Longrightarrow> t \<noteq> RPAREN \<Longrightarrow> balanced [t]"
  unfolding balanced_def by (auto split: sum.splits dest: scanToken_depth)

lemma balanced_append: "balanced a \<Longrightarrow> balanced b \<Longrightarrow> balanced (a @ b)"
  unfolding balanced_def scan_append
  by (auto split: sum.splits) (metis prod.collapse)+

lemma balanced_Cons: "t \<noteq> LPAREN \<Longrightarrow> t \<noteq> RPAREN \<Longrightarrow> balanced ts \<Longrightarrow> balanced (t # ts)"
  using balanced_append [OF balanced_single, of t ts] by simp

lemma balanced_paren: "balanced a \<Longrightarrow> balanced (LPAREN # a @ [RPAREN])"
  unfolding balanced_def
proof (intro allI impI)
  fix m h d h' d'
  assume a: "\<forall>m h d h' d'. scan m (h, d) a = Inr (h', d') \<longrightarrow> d' = d"
    and s: "scan m (h, d) (LPAREN # a @ [RPAREN]) = Inr (h', d')"
  from s obtain h1 d1 where 1: "scan m (h, d + 1) a = Inr (h1, d1)"
    by (cases "scan m (h, d + 1) a") (auto simp: scan_append)
  with a have "d1 = d + 1" by blast
  with s 1 show "d' = d" by (simp add: scan_append)
qed

lemma balanced_toks:
  "balanced (toksPrim q)" "balanced (toksExpr e)" "balanced (toksArgs es)" "balanced (toksOps ops)"
proof (induction q and e and es and ops rule: validPrim_validExpr_validArgs_validOps.induct)
  case (5 f args)
  then show ?case
    using balanced_Cons [OF _ _ balanced_paren, of "FUNCTION f" "toksArgs args"] by simp
next
  case (8 e es)
  then show ?case
    by (auto intro!: balanced_append balanced_Cons)
qed (auto intro!: balanced_append balanced_Cons balanced_paren balanced_Nil
    balanced_single simp del: append_Cons)

lemma toksOps_append: "toksOps (a @ b) = toksOps a @ toksOps b"
  by (induction a) auto

lemma toksPrim_nonempty: "0 < length (toksPrim q)"
  by (cases q) simp_all

lemma opsOK_simps:
  "opsOK ((op, q) # ops) \<longleftrightarrow> primOK q \<and> opsOK ops"
  "opsOK (a @ b) \<longleftrightarrow> opsOK a \<and> opsOK b"
  by (auto simp: opsOK_def)

lemma parseLoop_nonop:
  "current p = Some t \<Longrightarrow> (case t of OPERATOR op \<Rightarrow> False | _ \<Rightarrow> True) \<Longrightarrow>
    parseLoop (Suc n) m tp left p = Some (Inr (left, p))"
  by (cases t) simp_all

lemma parseLoop_below:
  "current p = Some (OPERATOR op) \<Longrightarrow> PRECEDENCE op < m \<Longrightarrow>
    parseLoop (Suc n) m tp left p = Some (Inr (left, p))"
  by simp

lemma parseLoop_step:
  assumes "current p = Some (OPERATOR op)" "\<not> PRECEDENCE op < m" "tp \<longleftrightarrow> d = 0"
  shows "parseLoop (Suc n) m tp left p =
    (case scanToken (mode p) (hasTopLevelComparison p, d) (OPERATOR op) of
       Inl e \<Rightarrow> Some (Inl e)
     | Inr s \<Rightarrow>
        (case parseExpression n (nextMinPrec op) tp (moved 1 (fst s) p) of
           None \<Rightarrow> None
         | Some (Inl e) \<Rightarrow> Some (Inl e)
         | Some (Inr (right, p3)) \<Rightarrow> parseLoop n m tp (BinaryNode op left right) p3))"
  using assms by (auto simp: Let_def nextMinPrec_def advance_moved flag_moved)

lemma loop_ok:
  "opsOK ops \<Longrightarrow> remaining p = toksOps ops @ r \<Longrightarrow> endsChain r \<Longrightarrow>
   3 * length (remaining p) + 1 \<le> n \<Longrightarrow> (tp \<longleftrightarrow> d = 0) \<Longrightarrow>
   parseLoop n m tp left p =
     (case climb refPrim m left ops of (a, pre, post) \<Rightarrow> outcome d p (toksOps pre) a)"
proof (induction "length ops" arbitrary: ops p n m left rule: less_induct)
  case less
  from less.prems(4) obtain n' where n: "n = Suc n'" by (cases n) auto
  show ?case
  proof (cases ops)
    case Nil
    with less.prems(2) have "remaining p = r" by simp
    with less.prems(3) obtain t where "current p = Some t"
      "case t of OPERATOR op \<Rightarrow> False | _ \<Rightarrow> True"
      using remaining_Cons(1) [of p] by (cases r) (auto simp: endsChain_def)
    then show ?thesis using Nil n by (simp add: parseLoop_nonop del: parseLoop.simps)
  next
    case (Cons x ops')
    obtain op q where x: "x = (op, q)" by (cases x)
    from less.prems(2) Cons x
    have rem: "remaining p = OPERATOR op # toksPrim q @ toksOps ops' @ r" by simp
    then have cur: "current p = Some (OPERATOR op)" by (rule remaining_Cons)
    from less.prems(1) Cons x have okq: "primOK q" and ok': "opsOK ops'"
      by (simp_all add: opsOK_simps)
    show ?thesis
    proof (cases "PRECEDENCE op < m")
      case True
      then show ?thesis
        using cur Cons x n by (simp add: parseLoop_below del: parseLoop.simps)
    next
      case False
      obtain right pre1 post1 where
        c1: "climb refPrim (nextMinPrec op) (refPrim q) ops' = (right, pre1, post1)"
        by (cases "climb refPrim (nextMinPrec op) (refPrim q) ops'")
      obtain a2 pre2 post2 where
        c2: "climb refPrim m (BinaryNode op left right) post1 = (a2, pre2, post2)"
        by (cases "climb refPrim m (BinaryNode op left right) post1")
      have cl: "climb refPrim m left ops = (a2, (op, q) # pre1 @ pre2, post2)"
        using Cons x False c1 c2 by (simp add: climb_Cons del: climb.simps)
      from climb_facts [OF c1] have o1: "ops' = pre1 @ post1" by simp
      from climb_facts [OF c2] have o2: "post1 = pre2 @ post2" by simp
      have toks: "toksOps ((op, q) # pre1 @ pre2)
          = OPERATOR op # toksPrim q @ toksOps pre1 @ toksOps pre2"
        by (simp add: toksOps_append)
      have step: "parseLoop n m tp left p =
        (case scanToken (mode p) (hasTopLevelComparison p, d) (OPERATOR op) of
           Inl e \<Rightarrow> Some (Inl e)
         | Inr s \<Rightarrow>
            (case parseExpression n' (nextMinPrec op) tp (moved 1 (fst s) p) of
               None \<Rightarrow> None
             | Some (Inl e) \<Rightarrow> Some (Inl e)
             | Some (Inr (right, p3)) \<Rightarrow> parseLoop n' m tp (BinaryNode op left right) p3))"
        unfolding n by (rule parseLoop_step [OF cur False less.prems(5)])
      show ?thesis
      proof (cases "scanToken (mode p) (hasTopLevelComparison p, d) (OPERATOR op)")
        case (Inl e)
        then show ?thesis
          unfolding step cl by (simp add: toks outcome_Cons del: toksOps.simps scanToken.simps)
      next
        case (Inr s)
        obtain h d0 where s: "s = (h, d0)" by (cases s)
        with Inr have d0: "d0 = d" using scanToken_depth [of "mode p" _ d "OPERATOR op" h d0] by simp
        let ?p2 = "moved 1 h p"
        have rem2: "remaining ?p2 = toksPrim q @ toksOps ops' @ r" using rem by simp
        from less.prems(4) rem toksPrim_nonempty [of q] obtain n'' where n': "n' = Suc n''"
          unfolding n by (cases n') auto
        have fuel2: "3 * length (remaining ?p2) + 1 \<le> n''"
          unfolding rem2 using less.prems(4) [unfolded rem n n'] by simp
        from okq rem2 fuel2
        have prim: "parsePrimary n'' ?p2 = outcome d ?p2 (toksPrim q) (refPrim q)"
          unfolding primOK_def by blast
        have expr: "parseExpression n' (nextMinPrec op) tp ?p2 =
          (case parsePrimary n'' ?p2 of
             None \<Rightarrow> None
           | Some (Inl e) \<Rightarrow> Some (Inl e)
           | Some (Inr (l, p1)) \<Rightarrow> parseLoop n'' (nextMinPrec op) tp l p1)"
          unfolding n' by simp
        show ?thesis
        proof (cases "scan (mode p) (h, d) (toksPrim q)")
          case (Inl e)
          then have "parseLoop n m tp left p = Some (Inl e)"
            unfolding step using Inr s d0 expr prim by (simp add: outcome_def)
          moreover have "outcome d p (toksOps ((op, q) # pre1 @ pre2)) a2 = Some (Inl e)"
            unfolding toks using Inr s d0 Inl
            by (simp add: outcome_Cons outcome_append del: scanToken.simps)
          ultimately show ?thesis unfolding cl by simp
        next
          case sq: (Inr s1)
          obtain h1 d1 where s1: "s1 = (h1, d1)" by (cases s1)
          with sq balanced_toks(1) [of q] have d1: "d1 = d" unfolding balanced_def by blast
          let ?p3 = "moved (1 + length (toksPrim q)) h1 p"
          have prim': "parsePrimary n'' ?p2 = Some (Inr (refPrim q, ?p3))"
            unfolding prim using sq s1 by (simp add: outcome_def)
          have rem3: "remaining ?p3 = toksOps ops' @ r" using rem by simp
          have fuel3: "3 * length (remaining ?p3) + 1 \<le> n''"
            unfolding rem3 using less.prems(4) [unfolded rem n n'] by simp
          have "length ops' < length ops" using Cons by simp
          from less.hyps [OF this ok' rem3 less.prems(3) fuel3 less.prems(5),
              of "nextMinPrec op" "refPrim q"]
          have loop1: "parseLoop n'' (nextMinPrec op) tp (refPrim q) ?p3
              = outcome d ?p3 (toksOps pre1) right"
            unfolding c1 by simp
          have expr': "parseExpression n' (nextMinPrec op) tp ?p2
              = outcome d ?p3 (toksOps pre1) right"
            unfolding expr prim' using loop1 by simp
          show ?thesis
          proof (cases "scan (mode p) (h1, d) (toksOps pre1)")
            case (Inl e)
            then have "parseLoop n m tp left p = Some (Inl e)"
              unfolding step using Inr s d0 expr' by (simp add: outcome_def)
            moreover have "outcome d p (toksOps ((op, q) # pre1 @ pre2)) a2 = Some (Inl e)"
              unfolding toks using Inr s d0 sq s1 d1 Inl
              by (simp add: outcome_Cons outcome_append del: scanToken.simps)
            ultimately show ?thesis unfolding cl by simp
          next
            case so: (Inr s2)
            obtain h2 d2 where s2: "s2 = (h2, d2)" by (cases s2)
            with so balanced_toks(4) [of pre1] have d2: "d2 = d" unfolding balanced_def by blast
            let ?p4 = "moved (1 + length (toksPrim q) + length (toksOps pre1)) h2 p"
            have expr'': "parseExpression n' (nextMinPrec op) tp ?p2 = Some (Inr (right, ?p4))"
              unfolding expr' using so s2 by (simp add: outcome_def add.assoc)
            have rem4: "remaining ?p4 = toksOps post1 @ r"
              using rem o1 by (simp add: toksOps_append)
            have "length (toksOps ops') = length (toksOps pre1) + length (toksOps post1)"
              unfolding o1 toksOps_append by simp
            then have fuel4: "3 * length (remaining ?p4) + 1 \<le> n'"
              unfolding rem4 using less.prems(4) [unfolded rem n] by simp
            have len4: "length post1 < length ops" using Cons o1 by simp
            have ok4: "opsOK post1" using ok' o1 by (simp add: opsOK_simps)
            from less.hyps [OF len4 ok4 rem4 less.prems(3) fuel4 less.prems(5),
                of m "BinaryNode op left right"]
            have loop2: "parseLoop n' m tp (BinaryNode op left right) ?p4
                = outcome d ?p4 (toksOps pre2) a2"
              unfolding c2 by simp
            have "parseLoop n m tp left p = outcome d ?p4 (toksOps pre2) a2"
              unfolding step using Inr s d0 expr'' loop2 by simp
            moreover have "outcome d p (toksOps ((op, q) # pre1 @ pre2)) a2
                = outcome d ?p4 (toksOps pre2) a2"
              unfolding toks using Inr s d0 sq s1 d1 so s2 d2
              by (simp add: outcome_Cons outcome_append add.assoc del: scanToken.simps)
            ultimately show ?thesis unfolding cl by simp
          qed
        qed
      qed
    qed
  qed
qed

lemma refArgs_length [simp]: "length (refArgs es) = length es"
  by (induction es) simp_all

lemma toksExpr_head:
  "\<exists>t ts. toksExpr e = t # ts \<and> t \<noteq> RPAREN"
proof (cases e)
  case (Chain q ops)
  then show ?thesis by (cases q) simp_all
qed

lemma prim_value: "primOK (PValue i)"
  unfolding primOK_def
proof (intro allI impI)
  fix n and p :: parser and r and d :: nat
  assume rem: "remaining p = toksPrim (PValue i) @ r" and fuel: "3 * length (remaining p) + 1 \<le> n"
  from fuel obtain n' where n: "n = Suc n'" by (cases n) auto
  from rem have "current p = Some (VALUE i)" using remaining_Cons(1) [of p "VALUE i" r] by simp
  then show "parsePrimary n p = outcome d p (toksPrim (PValue i)) (refPrim (PValue i))"
    unfolding n by (simp add: outcome_def advance_moved)
qed

lemma prim_number: "primOK (PNumber v)"
  unfolding primOK_def
proof (intro allI impI)
  fix n and p :: parser and r and d :: nat
  assume rem: "remaining p = toksPrim (PNumber v) @ r" and fuel: "3 * length (remaining p) + 1 \<le> n"
  from fuel obtain n' where n: "n = Suc n'" by (cases n) auto
  from rem have "current p = Some (NUMBER v)" using remaining_Cons(1) [of p "NUMBER v" r] by simp
  then show "parsePrimary n p = outcome d p (toksPrim (PNumber v)) (refPrim (PNumber v))"
    unfolding n by (simp add: outcome_def advance_moved)
qed

lemma prim_unary:
  assumes "op = OpAdd \<or> op = OpSub" and q: "primOK q"
  shows "primOK (PUnary op q)"
  unfolding primOK_def
proof (intro allI impI)
  fix n and p :: parser and r and d :: nat
  assume rem0: "remaining p = toksPrim (PUnary op q) @ r" and fuel: "3 * length (remaining p) + 1 \<le> n"
  from rem0 have rem: "remaining p = OPERATOR op # toksPrim q @ r" by simp
  from fuel obtain n' where n: "n = Suc n'" by (cases n) auto
  from rem have cur: "current p = Some (OPERATOR op)" by (rule remaining_Cons)
  let ?p1 = "moved 1 (hasTopLevelComparison p) p"
  have rem1: "remaining ?p1 = toksPrim q @ r" using rem by simp
  have fuel1: "3 * length (remaining ?p1) + 1 \<le> n'"
    unfolding rem1 using fuel [unfolded rem n] by simp
  from q rem1 fuel1 have ih: "parsePrimary n' ?p1 = outcome d ?p1 (toksPrim q) (refPrim q)"
    unfolding primOK_def by blast
  have nc: "op \<notin> COMPARISON_OPS" using assms(1) by (auto simp: COMPARISON_OPS_def)
  have lhs: "parsePrimary n p =
      (case parsePrimary n' ?p1 of
         None \<Rightarrow> None
       | Some (Inl e) \<Rightarrow> Some (Inl e)
       | Some (Inr (operand, p1)) \<Rightarrow> Some (Inr (UnaryNode op operand, p1)))"
    unfolding n using cur assms(1) by (simp add: advance_moved)
  have rhs: "outcome d p (toksPrim (PUnary op q)) (refPrim (PUnary op q))
      = outcome d ?p1 (toksPrim q) (UnaryNode op (refPrim q))"
    using nc by (simp add: outcome_Cons)
  show "parsePrimary n p = outcome d p (toksPrim (PUnary op q)) (refPrim (PUnary op q))"
    unfolding lhs rhs ih by (simp add: outcome_def split: sum.splits)
qed

lemma prim_paren:
  assumes e: "exprOK e"
  shows "primOK (PParen e)"
  unfolding primOK_def
proof (intro allI impI)
  fix n and p :: parser and r and d :: nat
  assume rem0: "remaining p = toksPrim (PParen e) @ r" and fuel: "3 * length (remaining p) + 1 \<le> n"
  from rem0 have rem: "remaining p = LPAREN # toksExpr e @ RPAREN # r" by simp
  from fuel obtain n' where n: "n = Suc n'" by (cases n) auto
  from rem have cur: "current p = Some LPAREN" by (rule remaining_Cons)
  let ?h = "hasTopLevelComparison p"
  let ?p1 = "moved 1 ?h p"
  have rem1: "remaining ?p1 = toksExpr e @ RPAREN # r" using rem by simp
  have fuel1: "3 * length (remaining ?p1) + 2 \<le> n'"
    unfolding rem1 using fuel [unfolded rem n] by simp
  have ends: "endsChain (RPAREN # r)" by (simp add: endsChain_def)
  have ih: "parseExpression n' 0 False ?p1 = outcome (Suc d) ?p1 (toksExpr e) (refExpr e)"
    by (rule e [unfolded exprOK_def, rule_format, OF rem1 ends fuel1]) simp
  have lhs: "parsePrimary n p =
      (case parseExpression n' 0 False ?p1 of
         None \<Rightarrow> None
       | Some (Inl e) \<Rightarrow> Some (Inl e)
       | Some (Inr (expr, p1)) \<Rightarrow>
          (case current p1 of
             None \<Rightarrow> Some (Inl undefinedToken)
           | Some t \<Rightarrow>
              if t \<noteq> RPAREN then Some (Inl ExpectedClosingParenthesis)
              else Some (Inr (expr, advance p1))))"
    unfolding n using cur by (simp add: advance_moved)
  show "parsePrimary n p = outcome d p (toksPrim (PParen e)) (refPrim (PParen e))"
  proof (cases "scan (mode p) (?h, Suc d) (toksExpr e)")
    case (Inl err)
    then show ?thesis
      unfolding lhs ih by (simp add: outcome_def scan_append)
  next
    case (Inr s)
    obtain h1 d1 where s: "s = (h1, d1)" by (cases s)
    with Inr balanced_toks(2) [of e] have d1: "d1 = Suc d" unfolding balanced_def by blast
    let ?p2 = "moved (1 + length (toksExpr e)) h1 p"
    have ih': "parseExpression n' 0 False ?p1 = Some (Inr (refExpr e, ?p2))"
      unfolding ih using Inr s by (simp add: outcome_def)
    have "remaining ?p2 = RPAREN # r" using rem by simp
    then have cur2: "current ?p2 = Some RPAREN" by (rule remaining_Cons)
    have "parsePrimary n p = Some (Inr (refExpr e, moved (2 + length (toksExpr e)) h1 p))"
      unfolding lhs ih' using cur2 by (simp add: advance_moved)
    moreover have "outcome d p (toksPrim (PParen e)) (refPrim (PParen e))
        = Some (Inr (refExpr e, moved (2 + length (toksExpr e)) h1 p))"
      using Inr s d1 by (simp add: outcome_def scan_append)
    ultimately show ?thesis by simp
  qed
qed

lemma prim_call:
  assumes f: "f \<in> set validFunctions" and len: "length args = (if f = ''clamp'' then 3 else 1)"
    and a: "argsOK args"
  shows "primOK (PCall f args)"
  unfolding primOK_def
proof (intro allI impI)
  fix n and p :: parser and r and d :: nat
  assume rem0: "remaining p = toksPrim (PCall f args) @ r" and fuel: "3 * length (remaining p) + 1 \<le> n"
  from rem0 have rem: "remaining p = FUNCTION f # LPAREN # toksArgs args @ RPAREN # r" by simp
  from fuel obtain n' where n: "n = Suc n'" by (cases n) auto
  let ?h = "hasTopLevelComparison p"
  from rem have cur: "current p = Some (FUNCTION f)" by (rule remaining_Cons)
  have rem1: "remaining (moved 1 ?h p) = LPAREN # toksArgs args @ RPAREN # r" using rem by simp
  then have cur1: "current (moved 1 ?h p) = Some LPAREN" by (rule remaining_Cons)
  let ?p2 = "moved 2 ?h p"
  have rem2: "remaining ?p2 = toksArgs args @ RPAREN # r" using rem by simp
  have fuel2: "3 * length (remaining ?p2) + 3 \<le> n'"
    unfolding rem2 using fuel [unfolded rem n] by simp
  have ih: "parseArgs n' [] ?p2 = outcome (Suc d) ?p2 (toksArgs args) ([] @ refArgs args)"
    by (rule a [unfolded argsOK_def, rule_format, OF rem2 fuel2]) simp
  have cur1': "current (advance p) = Some LPAREN" using cur1 by (simp add: advance_moved)
  have adv2: "advance (advance p) = ?p2" by (simp add: advance_moved)
  have lhs: "parsePrimary n p =
      (case parseArgs n' [] (advance (advance p)) of
         None \<Rightarrow> None
       | Some (Inl e) \<Rightarrow> Some (Inl e)
       | Some (Inr (args, p2)) \<Rightarrow>
          (let p3 = advance p2 in
           if f \<notin> set validFunctions then Some (Inl (UnknownFunction f))
           else if f = ''clamp'' \<and> length args \<noteq> 3 then
             Some (Inl ClampRequires3Arguments)
           else if f \<noteq> ''clamp'' \<and> length args \<noteq> 1 then
             Some (Inl (RequiresOneArgument f))
           else Some (Inr (FunctionNode f args, p3))))"
    unfolding n using cur cur1' by (simp add: Let_def)
  show "parsePrimary n p = outcome d p (toksPrim (PCall f args)) (refPrim (PCall f args))"
  proof (cases "scan (mode p) (?h, Suc d) (toksArgs args)")
    case (Inl err)
    then show ?thesis
      unfolding lhs adv2 ih by (simp add: outcome_def scan_append)
  next
    case (Inr s)
    obtain h1 d1 where s: "s = (h1, d1)" by (cases s)
    let ?p3 = "moved (2 + length (toksArgs args)) h1 p"
    have ih': "parseArgs n' [] ?p2 = Some (Inr (refArgs args, ?p3))"
      unfolding ih using Inr s by (simp add: outcome_def)
    have "parsePrimary n p
        = Some (Inr (FunctionNode f (refArgs args), moved (3 + length (toksArgs args)) h1 p))"
      unfolding lhs adv2 ih' using len f by (simp add: advance_moved Let_def)
    moreover have "outcome d p (toksPrim (PCall f args)) (refPrim (PCall f args))
        = Some (Inr (FunctionNode f (refArgs args), moved (3 + length (toksArgs args)) h1 p))"
      using Inr s by (simp add: outcome_def scan_append)
    ultimately show ?thesis by simp
  qed
qed

lemma args_nil: "argsOK []"
  unfolding argsOK_def
proof (intro allI impI)
  fix n and p :: parser and r and d :: nat and acc :: "ASTNode list"
  assume rem0: "remaining p = toksArgs [] @ RPAREN # r"
    and fuel: "3 * length (remaining p) + 3 \<le> n"
  from fuel obtain n' where n: "n = Suc n'" by (cases n) auto
  from rem0 have "current p = Some RPAREN" using remaining_Cons(1) [of p RPAREN r] by simp
  then show "parseArgs n acc p = outcome d p (toksArgs []) (acc @ refArgs [])"
    unfolding n by simp
qed

lemma args_cons:
  assumes e: "exprOK e" and es: "argsOK es"
  shows "argsOK (e # es)"
  unfolding argsOK_def
proof (intro allI impI)
  fix n and p :: parser and r and d :: nat and acc :: "ASTNode list"
  assume rem0: "remaining p = toksArgs (e # es) @ RPAREN # r"
    and fuel: "3 * length (remaining p) + 3 \<le> n" and d: "d \<noteq> 0"
  let ?sep = "if es = [] then [] else COMMA # toksArgs es"
  from rem0 have rem: "remaining p = toksExpr e @ ?sep @ RPAREN # r" by simp
  from fuel obtain n' where n: "n = Suc n'" by (cases n) auto
  obtain t ts where hd: "toksExpr e = t # ts" "t \<noteq> RPAREN"
    using toksExpr_head [of e] by blast
  with rem have cur: "current p = Some t" using remaining_Cons(1) [of p t] by simp
  have ends: "endsChain (?sep @ RPAREN # r)" by (simp add: endsChain_def)
  have fuel1: "3 * length (remaining p) + 2 \<le> n'" using fuel unfolding n by simp
  have ih: "parseExpression n' 0 False p = outcome d p (toksExpr e) (refExpr e)"
    by (rule e [unfolded exprOK_def, rule_format, OF rem ends fuel1]) (simp add: d)
  have lhs: "parseArgs n acc p =
      (case parseExpression n' 0 False p of
         None \<Rightarrow> None
       | Some (Inl e) \<Rightarrow> Some (Inl e)
       | Some (Inr (arg, p1)) \<Rightarrow>
          (case current p1 of
             None \<Rightarrow> Some (Inl undefinedToken)
           | Some t1 \<Rightarrow>
              if t1 = COMMA then parseArgs n' (acc @ [arg]) (advance p1)
              else if t1 \<noteq> RPAREN then Some (Inl ExpectedCommaOrRParen)
              else parseArgs n' (acc @ [arg]) p1))"
    unfolding n using cur hd(2) by simp
  show "parseArgs n acc p = outcome d p (toksArgs (e # es)) (acc @ refArgs (e # es))"
  proof (cases "scan (mode p) (hasTopLevelComparison p, d) (toksExpr e)")
    case (Inl err)
    then show ?thesis
      unfolding lhs ih by (simp add: outcome_def scan_append)
  next
    case (Inr s)
    obtain h1 d1 where s: "s = (h1, d1)" by (cases s)
    with Inr balanced_toks(2) [of e] have d1: "d1 = d" unfolding balanced_def by blast
    let ?p1 = "moved (length (toksExpr e)) h1 p"
    have ih': "parseExpression n' 0 False p = Some (Inr (refExpr e, ?p1))"
      unfolding ih using Inr s by (simp add: outcome_def)
    have rem1: "remaining ?p1 = ?sep @ RPAREN # r" using rem by simp
    have len1: "0 < length (toksExpr e)" using hd by simp
    show ?thesis
    proof (cases "es = []")
      case True
      with rem1 have r1: "remaining ?p1 = toksArgs [] @ RPAREN # r" by simp
      then have cur1: "current ?p1 = Some RPAREN" using remaining_Cons(1) [of ?p1 RPAREN r] by simp
      have f1: "3 * length (remaining ?p1) + 3 \<le> n'"
        unfolding r1 using fuel [unfolded rem n] True by (simp add: hd(1))
      have "parseArgs n' (acc @ [refExpr e]) ?p1
          = outcome d ?p1 (toksArgs []) ((acc @ [refExpr e]) @ refArgs [])"
        by (rule args_nil [unfolded argsOK_def, rule_format, OF r1 f1 d])
      then have "parseArgs n acc p = Some (Inr (acc @ [refExpr e], ?p1))"
        unfolding lhs ih' using cur1 by simp
      moreover have "outcome d p (toksArgs (e # es)) (acc @ refArgs (e # es))
          = Some (Inr (acc @ [refExpr e], ?p1))"
        using True Inr s by (simp add: outcome_def)
      ultimately show ?thesis by simp
    next
      case False
      with rem1 have r1: "remaining ?p1 = COMMA # toksArgs es @ RPAREN # r" by simp
      then have cur1: "current ?p1 = Some COMMA" by (rule remaining_Cons)
      let ?p2 = "moved (Suc (length (toksExpr e))) h1 p"
      have r2: "remaining ?p2 = toksArgs es @ RPAREN # r" using rem False by simp
      have f2: "3 * length (remaining ?p2) + 3 \<le> n'"
        unfolding r2 using fuel [unfolded rem n] False by simp
      have tail: "parseArgs n' (acc @ [refExpr e]) ?p2
          = outcome d ?p2 (toksArgs es) ((acc @ [refExpr e]) @ refArgs es)"
        by (rule es [unfolded argsOK_def, rule_format, OF r2 f2 d])
      have "parseArgs n acc p = outcome d ?p2 (toksArgs es) ((acc @ [refExpr e]) @ refArgs es)"
        unfolding lhs ih' using cur1 tail by (simp add: advance_moved)
      moreover have "outcome d p (toksArgs (e # es)) (acc @ refArgs (e # es))
          = outcome d ?p2 (toksArgs es) ((acc @ [refExpr e]) @ refArgs es)"
        using False Inr s d1 by (simp add: outcome_append outcome_Cons)
      ultimately show ?thesis by simp
    qed
  qed
qed

lemma refOps_map: "refOps ops = map (apsnd refPrim) ops"
  by (induction ops) auto

lemma expr_chain:
  assumes q: "primOK q" and ops: "opsOK ops"
  shows "exprOK (Chain q ops)"
  unfolding exprOK_def
proof (intro allI impI)
  fix n and p :: parser and r and d :: nat and tp
  assume rem0: "remaining p = toksExpr (Chain q ops) @ r" and ends: "endsChain r"
    and fuel: "3 * length (remaining p) + 2 \<le> n" and tp: "tp \<longleftrightarrow> d = 0"
  from rem0 have rem: "remaining p = toksPrim q @ toksOps ops @ r" by simp
  from fuel obtain n' where n: "n = Suc n'" by (cases n) auto
  have fuel1: "3 * length (remaining p) + 1 \<le> n'" using fuel unfolding n by simp
  have ih: "parsePrimary n' p = outcome d p (toksPrim q) (refPrim q)"
    by (rule q [unfolded primOK_def, rule_format, OF rem fuel1])
  have lhs: "parseExpression n 0 tp p =
      (case parsePrimary n' p of
         None \<Rightarrow> None
       | Some (Inl e) \<Rightarrow> Some (Inl e)
       | Some (Inr (left, p1)) \<Rightarrow> parseLoop n' 0 tp left p1)"
    unfolding n by simp
  have top: "climb refPrim 0 (refPrim q) ops = (refExpr (Chain q ops), ops, [])"
    by (simp add: climb_top refOps_map)
  show "parseExpression n 0 tp p = outcome d p (toksExpr (Chain q ops)) (refExpr (Chain q ops))"
  proof (cases "scan (mode p) (hasTopLevelComparison p, d) (toksPrim q)")
    case (Inl err)
    then show ?thesis
      unfolding lhs ih by (simp add: outcome_def scan_append)
  next
    case (Inr s)
    obtain h1 d1 where s: "s = (h1, d1)" by (cases s)
    with Inr balanced_toks(1) [of q] have d1: "d1 = d" unfolding balanced_def by blast
    let ?p1 = "moved (length (toksPrim q)) h1 p"
    have ih': "parsePrimary n' p = Some (Inr (refPrim q, ?p1))"
      unfolding ih using Inr s by (simp add: outcome_def)
    have rem1: "remaining ?p1 = toksOps ops @ r" using rem by simp
    have fuel2: "3 * length (remaining ?p1) + 1 \<le> n'"
      unfolding rem1 using fuel [unfolded rem n] by simp
    from loop_ok [OF ops rem1 ends fuel2 tp, of 0 "refPrim q"]
    have loop: "parseLoop n' 0 tp (refPrim q) ?p1
        = outcome d ?p1 (toksOps ops) (refExpr (Chain q ops))"
      unfolding top by simp
    have "parseExpression n 0 tp p = outcome d ?p1 (toksOps ops) (refExpr (Chain q ops))"
      unfolding lhs ih' using loop by simp
    moreover have "outcome d p (toksExpr (Chain q ops)) (refExpr (Chain q ops))
        = outcome d ?p1 (toksOps ops) (refExpr (Chain q ops))"
      using Inr s d1 by (simp add: outcome_append)
    ultimately show ?thesis by simp
  qed
qed

lemma parser_complete:
  "validPrim q \<Longrightarrow> primOK q" "validExpr e \<Longrightarrow> exprOK e"
  "validArgs es \<Longrightarrow> argsOK es" "validOps ops \<Longrightarrow> opsOK ops"
proof (induction q and e and es and ops rule: validPrim_validExpr_validArgs_validOps.induct)
  case (1 i)
  show ?case by (rule prim_value)
next
  case (2 v)
  show ?case by (rule prim_number)
next
  case (3 op q)
  then show ?case by (auto intro: prim_unary)
next
  case (4 e)
  then show ?case by (auto intro: prim_paren)
next
  case (5 f args)
  then show ?case by (auto intro!: prim_call)
next
  case (6 q ops)
  then show ?case by (auto intro: expr_chain)
next
  case 7
  show ?case by (rule args_nil)
next
  case (8 e es)
  then show ?case by (auto intro: args_cons)
next
  case 9
  show ?case by (simp add: opsOK_def)
next
  case (10 op q ops)
  then show ?case by (simp add: opsOK_simps)
qed

section \<open>The entry points on the tokens of a valid expression\<close>

lemma scan_math:
  "map_sum id (\<lambda>s. ()) (scan ''math'' (h, d) ts) = mathVerdict (comparisons d ts)"
proof (induction ts arbitrary: h d)
  case Nil
  show ?case by simp
next
  case (Cons t ts)
  show ?case using Cons.IH by (cases t) (auto split: sum.splits)
qed

lemma scan_is:
  "map_sum id fst (scan ''is'' (h, d) ts) = isVerdict h (comparisons d ts)"
proof (induction ts arbitrary: h d)
  case Nil
  show ?case by simp
next
  case (Cons t ts)
  show ?case using Cons.IH by (cases t) (auto split: sum.splits)
qed

lemma remaining_ASTParser [simp]: "remaining (ASTParser ts m) = ts"
  by (simp add: remaining_def ASTParser_def)

lemma ASTParser_simps [simp]:
  "mode (ASTParser ts m) = m" "hasTopLevelComparison (ASTParser ts m) = False"
  by (simp_all add: ASTParser_def)

lemma parse_valid_top:
  assumes "validExpr e"
  shows "parseExpression (parseFuel (toksExpr e @ [EOF])) 0 True (ASTParser (toksExpr e @ [EOF]) m)
    = outcome 0 (ASTParser (toksExpr e @ [EOF]) m) (toksExpr e) (refExpr e)"
proof -
  have ends: "endsChain [EOF]" by (simp add: endsChain_def)
  have rem: "remaining (ASTParser (toksExpr e @ [EOF]) m) = toksExpr e @ [EOF]" by simp
  have fuel: "3 * length (remaining (ASTParser (toksExpr e @ [EOF]) m)) + 2
      \<le> parseFuel (toksExpr e @ [EOF])"
    by (simp add: parseFuel_def)
  show ?thesis
    by (rule parser_complete(2) [OF assms, unfolded exprOK_def, rule_format, OF rem ends fuel]) simp
qed

lemma current_after:
  "current (moved (length ts) h (ASTParser (ts @ [EOF]) m)) = Some EOF"
  using remaining_Cons(1) [of "moved (length ts) h (ASTParser (ts @ [EOF]) m)" EOF "[]"]
  by simp

lemma parseMath_valid:
  assumes "validExpr e" and "tokenize template = Inr (toksExpr e @ [EOF])"
  shows "parseMath template =
    (case mathVerdict (comparisons 0 (toksExpr e)) of
       Inl err \<Rightarrow> Some (Inl err)
     | Inr u \<Rightarrow> Some (Inr (refExpr e)))"
proof (cases "scan ''math'' (False, 0) (toksExpr e)")
  case (Inl err)
  with scan_math [of False 0 "toksExpr e"] have "mathVerdict (comparisons 0 (toksExpr e)) = Inl err"
    by simp
  then show ?thesis
    using Inl assms(2) by (simp add: parseMath_def parse_valid_top [OF assms(1)] outcome_def)
next
  case (Inr s)
  with scan_math [of False 0 "toksExpr e"] have "mathVerdict (comparisons 0 (toksExpr e)) = Inr ()"
    by simp
  then show ?thesis
    using Inr assms(2)
    by (simp add: parseMath_def parse_valid_top [OF assms(1)] outcome_def current_after)
qed

lemma parseIs_valid:
  assumes "validExpr e" and "tokenize template = Inr (toksExpr e @ [EOF])"
  shows "parseIs template =
    (case isVerdict False (comparisons 0 (toksExpr e)) of
       Inl err \<Rightarrow> Some (Inl err)
     | Inr seen \<Rightarrow> if seen then Some (Inr (refExpr e)) else Some (Inl IsRequiresComparison))"
proof (cases "scan ''is'' (False, 0) (toksExpr e)")
  case (Inl err)
  with scan_is [of False 0 "toksExpr e"] have "isVerdict False (comparisons 0 (toksExpr e)) = Inl err"
    by simp
  then show ?thesis
    using Inl assms(2) by (simp add: parseIs_def parse_valid_top [OF assms(1)] outcome_def)
next
  case (Inr s)
  with scan_is [of False 0 "toksExpr e"]
  have "isVerdict False (comparisons 0 (toksExpr e)) = Inr (fst s)"
    by simp
  then show ?thesis
    using Inr assms(2)
    by (simp add: parseIs_def parse_valid_top [OF assms(1)] outcome_def current_after)
qed

lemma comparisons_member:
  "(op, k) \<in> set (comparisons d ts) \<Longrightarrow> op \<in> COMPARISON_OPS \<and> OPERATOR op \<in> set ts"
proof (induction ts arbitrary: d)
  case Nil
  then show ?case by simp
next
  case (Cons t ts)
  then show ?case by (cases t) (auto split: if_splits)
qed

lemma math_of_parse:
  assumes "cachesSound h c" and "h i = template"
  shows "fst (math D c \<lparr>ident = i, strings = template\<rparr> vals) =
    (case parseMath template of
       None \<Rightarrow> None
     | Some (Inl e) \<Rightarrow> Some (Inl e)
     | Some (Inr ast) \<Rightarrow> Some (evaluate D ast vals))"
  using math_fresh [of h c "\<lparr>ident = i, strings = template\<rparr>" D vals] assms
  by (simp add: freshMath_def)

lemma is_of_parse:
  assumes "cachesSound h c" and "h i = template"
  shows "fst (is' D c \<lparr>ident = i, strings = template\<rparr> vals) =
    (case parseIs template of
       None \<Rightarrow> None
     | Some (Inl e) \<Rightarrow> Some (Inl e)
     | Some (Inr ast) \<Rightarrow> Some (evaluate D ast vals))"
  using is_fresh [of h c "\<lparr>ident = i, strings = template\<rparr>" D vals] assms
  by (simp add: freshIs_def)

text \<open>
  Claim C1. For every valid expression without comparison operator, \<open>math\<close> on a
  template that spells it builds the reference tree, the one that groups the operators
  by rank, \<open>+ - * /\<close> from left to right and \<open>**\<close> from right to left, as explicit
  parentheses would, and returns the evaluation of that tree.
\<close>

theorem math_groups_by_precedence:
  fixes D :: "('d, 'n::zero) backend"
  assumes "validExpr e" and "tokenize template = Inr (toksExpr e @ [EOF])"
    and "comparisons 0 (toksExpr e) = []"
    and "cachesSound h c" and "h i = template"
  shows "parseMath template = Some (Inr (refExpr e))
       \<and> fst (math D c \<lparr>ident = i, strings = template\<rparr> vals) = Some (evaluate D (refExpr e) vals)"
proof -
  have p: "parseMath template = Some (Inr (refExpr e))"
    using parseMath_valid [OF assms(1,2)] assms(3) by simp
  moreover have "fst (math D c \<lparr>ident = i, strings = template\<rparr> vals)
      = Some (evaluate D (refExpr e) vals)"
    using math_of_parse [OF assms(4,5), of D vals] p by simp
  ultimately show ?thesis by simp
qed

theorem math_groups_by_precedence_witness:
  "fst (math intBackend create \<lparr>ident = 0, strings = [''2+3*4'']\<rparr> []) = Some (Inr (Dec 14))
   \<and> fst (math intBackend create \<lparr>ident = 0, strings = [''10/2*3'']\<rparr> []) = Some (Inr (Dec 15))
   \<and> fst (math intBackend create \<lparr>ident = 0, strings = [''2**3**2'']\<rparr> []) = Some (Inr (Dec 512))"
proof -
  let ?e1 = "Chain (PNumber ''2'') [(OpAdd, PNumber ''3''), (OpMul, PNumber ''4'')]"
  let ?e2 = "Chain (PNumber ''10'') [(OpDiv, PNumber ''2''), (OpMul, PNumber ''3'')]"
  let ?e3 = "Chain (PNumber ''2'') [(OpPow, PNumber ''3''), (OpPow, PNumber ''2'')]"
  have v: "validExpr ?e1" "validExpr ?e2" "validExpr ?e3" by simp_all
  have t1: "tokenize [''2+3*4''] = Inr (toksExpr ?e1 @ [EOF])" by code_simp
  have t2: "tokenize [''10/2*3''] = Inr (toksExpr ?e2 @ [EOF])" by code_simp
  have t3: "tokenize [''2**3**2''] = Inr (toksExpr ?e3 @ [EOF])" by code_simp
  have c: "comparisons 0 (toksExpr ?e1) = []" "comparisons 0 (toksExpr ?e2) = []"
    "comparisons 0 (toksExpr ?e3) = []"
    by (simp_all add: COMPARISON_OPS_def)
  have e1: "evaluate intBackend (refExpr ?e1) [] = Inr (Dec 14)" by code_simp
  have e2: "evaluate intBackend (refExpr ?e2) [] = Inr (Dec 15)" by code_simp
  have e3: "evaluate intBackend (refExpr ?e3) [] = Inr (Dec 512)" by code_simp
  show ?thesis
    using math_groups_by_precedence [OF v(1) t1 c(1) cachesSound_create [of "\<lambda>_. [''2+3*4'']"] refl,
        of intBackend 0 "[]"]
      math_groups_by_precedence [OF v(2) t2 c(2) cachesSound_create [of "\<lambda>_. [''10/2*3'']"] refl,
        of intBackend 0 "[]"]
      math_groups_by_precedence [OF v(3) t3 c(3) cachesSound_create [of "\<lambda>_. [''2**3**2'']"] refl,
        of intBackend 0 "[]"]
      e1 e2 e3
    by simp
qed

text \<open>
  Claim C7. For every valid expression that holds a comparison operator, with any
  number \<open>k\<close> of parentheses open at the first one (none at the top level, some
  inside parentheses or function arguments), \<open>math\<close> on a template that spells it
  fails with the error of arithmetic mode that names this operator.
\<close>

theorem math_rejects_comparison:
  fixes D :: "('d, 'n::zero) backend"
  assumes "validExpr e" and "tokenize template = Inr (toksExpr e @ [EOF])"
    and "comparisons 0 (toksExpr e) = (op, k) # cs"
    and "cachesSound h c" and "h i = template"
  shows "op \<in> COMPARISON_OPS
       \<and> parseMath template = Some (Inl (ComparisonInMath op))
       \<and> fst (math D c \<lparr>ident = i, strings = template\<rparr> vals) = Some (Inl (ComparisonInMath op))"
proof -
  have "op \<in> COMPARISON_OPS"
    using comparisons_member [of op k 0 "toksExpr e"] assms(3) by simp
  moreover have p: "parseMath template = Some (Inl (ComparisonInMath op))"
    using parseMath_valid [OF assms(1,2)] assms(3) by simp
  moreover have "fst (math D c \<lparr>ident = i, strings = template\<rparr> vals)
      = Some (Inl (ComparisonInMath op))"
    using math_of_parse [OF assms(4,5), of D vals] p by simp
  ultimately show ?thesis by simp
qed

theorem math_rejects_comparison_witness:
  "fst (math intBackend create \<lparr>ident = 0, strings = [''1 < 2'']\<rparr> [])
     = Some (Inl (ComparisonInMath OpLt))
   \<and> fst (math intBackend create \<lparr>ident = 0, strings = [''(1 <= 2) + 3'']\<rparr> [])
     = Some (Inl (ComparisonInMath OpLe))
   \<and> fst (math intBackend create \<lparr>ident = 0, strings = [''abs(1 == 2)'']\<rparr> [])
     = Some (Inl (ComparisonInMath OpEq))"
proof -
  let ?e1 = "Chain (PNumber ''1'') [(OpLt, PNumber ''2'')]"
  let ?e2 = "Chain (PParen (Chain (PNumber ''1'') [(OpLe, PNumber ''2'')])) [(OpAdd, PNumber ''3'')]"
  let ?e3 = "Chain (PCall ''abs'' [Chain (PNumber ''1'') [(OpEq, PNumber ''2'')]]) []"
  have v: "validExpr ?e1" "validExpr ?e2" "validExpr ?e3" by (simp_all add: validFunctions_def)
  have t1: "tokenize [''1 < 2''] = Inr (toksExpr ?e1 @ [EOF])" by code_simp
  have t2: "tokenize [''(1 <= 2) + 3''] = Inr (toksExpr ?e2 @ [EOF])" by code_simp
  have t3: "tokenize [''abs(1 == 2)''] = Inr (toksExpr ?e3 @ [EOF])" by code_simp
  have c1: "comparisons 0 (toksExpr ?e1) = (OpLt, 0) # []"
    and c2: "comparisons 0 (toksExpr ?e2) = (OpLe, 1) # []"
    and c3: "comparisons 0 (toksExpr ?e3) = (OpEq, 1) # []"
    by (simp_all add: COMPARISON_OPS_def)
  show ?thesis
    using math_rejects_comparison [OF v(1) t1 c1 cachesSound_create [of "\<lambda>_. [''1 < 2'']"] refl,
        of intBackend 0 "[]"]
      math_rejects_comparison [OF v(2) t2 c2 cachesSound_create [of "\<lambda>_. [''(1 <= 2) + 3'']"] refl,
        of intBackend 0 "[]"]
      math_rejects_comparison [OF v(3) t3 c3 cachesSound_create [of "\<lambda>_. [''abs(1 == 2)'']"] refl,
        of intBackend 0 "[]"]
    by simp
qed

text \<open>
  Claim C5. For all valid primaries \<open>q\<close> and \<open>r\<close> without comparison operator, a
  template that spells \<open>- q ** r\<close> is parsed as the power of the negated \<open>q\<close>, and
  evaluates to \<open>pow\<close> of \<open>neg\<close> of the value of \<open>q\<close>; so \<open>-2**2\<close> is \<open>(-2)**2 = 4\<close>.
  The other grouping, \<open>-(2**2)\<close>, is another tree, and its value is \<open>-4\<close>.
\<close>

theorem unary_minus_binds_tighter_than_power:
  fixes D :: "('d, 'n::zero) backend"
  assumes "validPrim q" and "validPrim r"
    and "tokenize template = Inr (toksExpr (Chain (PUnary OpSub q) [(OpPow, r)]) @ [EOF])"
    and "comparisons 0 (toksExpr (Chain (PUnary OpSub q) [(OpPow, r)])) = []"
  shows "parseMath template = Some (Inr (BinaryNode OpPow (UnaryNode OpSub (refPrim q)) (refPrim r)))
       \<and> parseMath template \<noteq> Some (Inr (UnaryNode OpSub (BinaryNode OpPow (refPrim q) (refPrim r))))
       \<and> (interpretNode (refPrim q) pv D = Inr (Dec x) \<and> interpretNode (refPrim r) pv D = Inr (Dec y)
            \<longrightarrow> interpretNode (BinaryNode OpPow (UnaryNode OpSub (refPrim q)) (refPrim r)) pv D
                  = Inr (Dec (d_pow D (d_neg D x) y)))"
proof -
  have v: "validExpr (Chain (PUnary OpSub q) [(OpPow, r)])" using assms(1,2) by simp
  have g: "refExpr (Chain (PUnary OpSub q) [(OpPow, r)])
      = BinaryNode OpPow (UnaryNode OpSub (refPrim q)) (refPrim r)"
    by (simp add: groupComparison_def groupAdditive_def groupMultiplicative_def groupPower_def
        leftToRight_def notRank_def)
  have "parseMath template = Some (Inr (BinaryNode OpPow (UnaryNode OpSub (refPrim q)) (refPrim r)))"
    using parseMath_valid [OF v assms(3)] assms(4) g by simp
  then show ?thesis by simp
qed

theorem unary_minus_binds_tighter_than_power_witness:
  "parseMath [''-2**2'']
     = Some (Inr (BinaryNode OpPow (UnaryNode OpSub (NumberNode ''2'')) (NumberNode ''2'')))
   \<and> fst (math intBackend create \<lparr>ident = 0, strings = [''-2**2'']\<rparr> []) = Some (Inr (Dec 4))
   \<and> evaluate intBackend (UnaryNode OpSub (BinaryNode OpPow (NumberNode ''2'') (NumberNode ''2''))) []
     = Inr (Dec (- 4))"
proof -
  let ?q = "PNumber ''2''"
  have v: "validPrim ?q" by simp
  have t: "tokenize [''-2**2''] = Inr (toksExpr (Chain (PUnary OpSub ?q) [(OpPow, ?q)]) @ [EOF])"
    by code_simp
  have c: "comparisons 0 (toksExpr (Chain (PUnary OpSub ?q) [(OpPow, ?q)])) = []"
    by (simp add: COMPARISON_OPS_def)
  have two: "interpretNode (refPrim ?q) [] intBackend = Inr (Dec 2)"
    by (simp add: intBackend_def intOfString_def isDigit_def digitValue_def)
  have p: "parseMath [''-2**2'']
      = Some (Inr (BinaryNode OpPow (UnaryNode OpSub (NumberNode ''2'')) (NumberNode ''2'')))"
    using unary_minus_binds_tighter_than_power [OF v v t c, of "[]" intBackend 2 2] by simp
  have e: "interpretNode (BinaryNode OpPow (UnaryNode OpSub (refPrim ?q)) (refPrim ?q)) [] intBackend
      = Inr (Dec (d_pow intBackend (d_neg intBackend 2) 2))"
    using unary_minus_binds_tighter_than_power [OF v v t c, of "[]" intBackend 2 2] two by blast
  have m: "fst (math intBackend create \<lparr>ident = 0, strings = [''-2**2'']\<rparr> []) = Some (Inr (Dec 4))"
    using e p by (simp add: math_def create_def evaluate_def intBackend_def)
  have o: "evaluate intBackend (UnaryNode OpSub (BinaryNode OpPow (NumberNode ''2'') (NumberNode ''2''))) []
      = Inr (Dec (- 4))"
    by code_simp
  from p m o show ?thesis by simp
qed

section \<open>Predicate mode: what the parser has scanned when it returns\<close>

lemma tokenizeFrom_no_EOF: "tokenizeFrom i strs = Inr ts \<Longrightarrow> EOF \<notin> set ts"
proof (induction strs arbitrary: i ts)
  case Nil
  then show ?case by simp
next
  case (Cons str strs)
  from Cons.prems obtain ts1 rest where
    1: "tokenizeStr str = Inr ts1" and 2: "tokenizeFrom (Suc i) strs = Inr rest"
    and ts: "ts = ts1 @ (if strs \<noteq> [] then [VALUE i] else []) @ rest"
    by (auto split: sum.splits)
  from tokenizeStr_no_VALUE [OF 1] Cons.IH [OF 2] ts show ?case by auto
qed

lemma tokenize_shape:
  assumes "tokenize template = Inr ts"
  obtains ts0 where "ts = ts0 @ [EOF]" "EOF \<notin> set ts0"
  using assms tokenizeFrom_no_EOF [of 0 template]
  by (auto simp: tokenize_def split: sum.splits)

lemma current_remaining:
  "current p = Some t \<Longrightarrow> remaining p = t # remaining (advance p)"
  by (auto simp: current_def remaining_def advance_def Cons_nth_drop_Suc split: if_splits)

lemma scanned_refl: "scanned p p []"
  by (simp add: scanned_def)

lemma scanned_advance: "current p = Some t \<Longrightarrow> scanned p (advance p) [t]"
  by (simp add: scanned_def current_remaining)

lemma scanned_trans: "scanned p p1 a \<Longrightarrow> scanned p1 p2 b \<Longrightarrow> scanned p p2 (a @ b)"
  by (simp add: scanned_def)

lemma scansTo_trans:
  "scansTo p p1 a d \<Longrightarrow> scansTo p1 p2 b d \<Longrightarrow> mode p1 = mode p \<Longrightarrow> scansTo p p2 (a @ b) d"
  by (simp add: scansTo_def scan_append)

lemma scansTo_plain:
  "t \<noteq> LPAREN \<Longrightarrow> t \<noteq> RPAREN \<Longrightarrow> (\<And>op. t = OPERATOR op \<Longrightarrow> op \<notin> COMPARISON_OPS) \<Longrightarrow>
    scansTo p (advance p) [t] d"
  by (cases t) (simp_all add: scansTo_def)

lemma consumed_refl: "consumed p p D"
  unfolding consumed_def by (rule exI [of _ "[]"]) (simp add: scanned_def scansTo_def)

lemma consumed_trans: "consumed p p1 D \<Longrightarrow> consumed p1 p2 D \<Longrightarrow> consumed p p2 D"
  unfolding consumed_def
proof (elim exE conjE)
  fix a b
  assume 1: "scanned p p1 a" "\<forall>d. D d \<longrightarrow> scansTo p p1 a d"
    and 2: "scanned p1 p2 b" "\<forall>d. D d \<longrightarrow> scansTo p1 p2 b d"
  from 1(1) have m: "mode p1 = mode p" by (simp add: scanned_def)
  show "\<exists>seg. scanned p p2 seg \<and> (\<forall>d. D d \<longrightarrow> scansTo p p2 seg d)"
    using scanned_trans [OF 1(1) 2(1)] 1(2) 2(2) m
    by (intro exI [of _ "a @ b"]) (auto intro: scansTo_trans)
qed

lemma consumed_weaken: "consumed p p' D \<Longrightarrow> (\<And>d. D' d \<Longrightarrow> D d) \<Longrightarrow> consumed p p' D'"
  unfolding consumed_def by blast

lemma consumed_plain:
  assumes "current p = Some t" "t \<noteq> LPAREN" "t \<noteq> RPAREN"
    "\<And>op. t = OPERATOR op \<Longrightarrow> op \<notin> COMPARISON_OPS"
  shows "consumed p (advance p) D"
  unfolding consumed_def
  using scanned_advance [OF assms(1)] scansTo_plain [OF assms(2,3,4), of p]
  by (intro exI [of _ "[t]"]) simp

lemma consumed_paren:
  assumes cur: "current p = Some LPAREN" and inner: "consumed (advance p) p1 (\<lambda>d. d \<noteq> 0)"
    and close: "current p1 = Some RPAREN"
  shows "consumed p (advance p1) D"
proof -
  from inner obtain seg where s: "scanned (advance p) p1 seg"
    and sc: "\<And>d. d \<noteq> 0 \<Longrightarrow> scansTo (advance p) p1 seg d"
    unfolding consumed_def by blast
  have "scanned p (advance p1) (LPAREN # seg @ [RPAREN])"
    using scanned_trans [OF scanned_trans [OF scanned_advance [OF cur] s] scanned_advance [OF close]]
    by simp
  moreover have "scansTo p (advance p1) (LPAREN # seg @ [RPAREN]) d" for d
    using sc [of "Suc d"] by (simp add: scansTo_def scan_append)
  ultimately show ?thesis unfolding consumed_def by blast
qed

lemma consumed_operator:
  assumes cur: "current p = Some (OPERATOR op)"
    and c1: "\<not> (op \<in> COMPARISON_OPS \<and> mode p = ''math'')"
    and c2: "\<not> (op \<in> COMPARISON_OPS \<and> mode p = ''is'' \<and> \<not> tp)"
    and c3: "\<not> (op \<in> COMPARISON_OPS \<and> mode p = ''is'' \<and> hasTopLevelComparison p)"
  shows "consumed p (advance (if op \<in> COMPARISON_OPS \<and> mode p = ''is''
                   then p\<lparr>hasTopLevelComparison := True\<rparr> else p)) (\<lambda>d. tp \<longleftrightarrow> d = 0)"
proof -
  let ?p1 = "if op \<in> COMPARISON_OPS \<and> mode p = ''is'' then p\<lparr>hasTopLevelComparison := True\<rparr> else p"
  have "remaining (advance ?p1) = remaining (advance p)" "mode (advance ?p1) = mode p"
    by (simp_all add: remaining_def advance_def)
  then have "scanned p (advance ?p1) [OPERATOR op]"
    using current_remaining [OF cur] by (simp add: scanned_def)
  moreover have "scansTo p (advance ?p1) [OPERATOR op] d" if "tp \<longleftrightarrow> d = 0" for d
    using that c1 c2 c3 by (auto simp: scansTo_def)
  ultimately show ?thesis unfolding consumed_def by blast
qed

lemma parser_sound:
  "(\<forall>p a p'. parsePrimary n p = Some (Inr (a, p')) \<longrightarrow> consumed p p' (\<lambda>d. True)) \<and>
   (\<forall>args p as p'. parseArgs n args p = Some (Inr (as, p')) \<longrightarrow>
      consumed p p' (\<lambda>d. d \<noteq> 0) \<and> current p' = Some RPAREN) \<and>
   (\<forall>m tp p a p'. parseExpression n m tp p = Some (Inr (a, p')) \<longrightarrow>
      consumed p p' (\<lambda>d. tp \<longleftrightarrow> d = 0)) \<and>
   (\<forall>m tp l p a p'. parseLoop n m tp l p = Some (Inr (a, p')) \<longrightarrow>
      consumed p p' (\<lambda>d. tp \<longleftrightarrow> d = 0))"
proof (induction n)
  case 0
  show ?case by simp
next
  case (Suc n)
  have P: "consumed p p' (\<lambda>d. True)"
    if "parsePrimary n p = Some (Inr (a, p'))" for p a p'
    using Suc [THEN conjunct1, rule_format, OF that] .
  have A: "consumed p p' (\<lambda>d. d \<noteq> 0) \<and> current p' = Some RPAREN"
    if "parseArgs n args p = Some (Inr (as, p'))" for args p as p'
    using Suc [THEN conjunct2, THEN conjunct1, rule_format, OF that] .
  have E: "consumed p p' (\<lambda>d. tp \<longleftrightarrow> d = 0)"
    if "parseExpression n m tp p = Some (Inr (a, p'))" for m tp p a p'
    using Suc [THEN conjunct2, THEN conjunct2, THEN conjunct1, rule_format, OF that] .
  have L: "consumed p p' (\<lambda>d. tp \<longleftrightarrow> d = 0)"
    if "parseLoop n m tp l p = Some (Inr (a, p'))" for m tp l p a p'
    using Suc [THEN conjunct2, THEN conjunct2, THEN conjunct2, rule_format, OF that] .
  have 1: "consumed p p' (\<lambda>d. True)"
    if "parsePrimary (Suc n) p = Some (Inr (a, p'))" for p a p'
    using that
  proof (cases rule: parsePrimary_SucE)
    case (Value i)
    then show ?thesis using consumed_plain [of p "VALUE i"] by simp
  next
    case (Number v)
    then show ?thesis using consumed_plain [of p "NUMBER v"] by simp
  next
    case (Function f args p2)
    have a: "consumed p (advance p) (\<lambda>d. True)"
      using consumed_plain [of p "FUNCTION f"] Function(1) by simp
    from A [OF Function(3)]
    have "consumed (advance (advance p)) p2 (\<lambda>d. d \<noteq> 0)" "current p2 = Some RPAREN"
      by simp_all
    from consumed_paren [OF Function(2) this]
    have "consumed (advance p) (advance p2) (\<lambda>d. True)" .
    with a Function(7) show ?thesis by (auto intro: consumed_trans)
  next
    case (Unary op operand)
    have nc: "op \<notin> COMPARISON_OPS" using Unary(2) by (auto simp: COMPARISON_OPS_def)
    have a: "consumed p (advance p) (\<lambda>d. True)"
      using consumed_plain [of p "OPERATOR op"] Unary(1) nc by simp
    from P [OF Unary(3)] a show ?thesis by (auto intro: consumed_trans)
  next
    case (Paren p1)
    from E [OF Paren(2)] have "consumed (advance p) p1 (\<lambda>d. d \<noteq> 0)" by simp
    from consumed_paren [OF Paren(1) this Paren(3)] Paren(4) show ?thesis by simp
  qed
  have 2: "consumed p p' (\<lambda>d. d \<noteq> 0) \<and> current p' = Some RPAREN"
    if "parseArgs (Suc n) args p = Some (Inr (as, p'))" for args p as p'
    using that
  proof (cases rule: parseArgs_SucE)
    case Done
    then show ?thesis by (simp add: consumed_refl)
  next
    case (Comma arg p1)
    from E [OF Comma(2)] have a: "consumed p p1 (\<lambda>d. d \<noteq> 0)" by simp
    have b: "consumed p1 (advance p1) (\<lambda>d. d \<noteq> 0)"
      using consumed_plain [of p1 COMMA] Comma(3) by simp
    from A [OF Comma(4)] a b show ?thesis by (auto intro: consumed_trans)
  next
    case (Last arg p1)
    from E [OF Last(2)] have a: "consumed p p1 (\<lambda>d. d \<noteq> 0)" by simp
    from A [OF Last(4)] a show ?thesis by (auto intro: consumed_trans)
  qed
  have 3: "consumed p p' (\<lambda>d. tp \<longleftrightarrow> d = 0)"
    if "parseExpression (Suc n) m tp p = Some (Inr (a, p'))" for m tp p a p'
    using that
  proof (cases rule: parseExpression_SucE)
    case (1 left p1)
    from consumed_weaken [OF P [OF 1(1)]] have "consumed p p1 (\<lambda>d. tp \<longleftrightarrow> d = 0)" by simp
    with L [OF 1(2)] show ?thesis by (auto intro: consumed_trans)
  qed
  have 4: "consumed p p' (\<lambda>d. tp \<longleftrightarrow> d = 0)"
    if "parseLoop (Suc n) m tp l p = Some (Inr (a, p'))" for m tp l p a p'
    using that
  proof (cases rule: parseLoop_SucE)
    case Stop
    then show ?thesis by (simp add: consumed_refl)
  next
    case (Step op right p3)
    from consumed_operator [OF Step(1,3,4,5)] E [OF Step(6)] L [OF Step(7)]
    show ?thesis by (auto intro: consumed_trans)
  qed
  show ?case using 1 2 3 4 by blast
qed

lemma isVerdict_True:
  assumes "isVerdict False cs = Inr True"
  shows "\<exists>op. cs = [(op, 0)]"
proof (cases cs)
  case Nil
  with assms show ?thesis by simp
next
  case (Cons c cs')
  obtain op k where c: "c = (op, k)" by (cases c)
  from assms Cons c have k: "k = 0" and r: "isVerdict True cs' = Inr True"
    by (simp_all split: if_splits)
  have "cs' = []"
  proof (cases cs')
    case Nil
    then show ?thesis .
  next
    case (Cons c' cs'')
    with r show ?thesis by (cases c') (simp split: if_splits)
  qed
  with Cons c k show ?thesis by simp
qed

lemma parseIs_sound:
  assumes "parseIs template = Some (Inr ast)"
  shows "\<exists>ts op. tokenize template = Inr (ts @ [EOF]) \<and> comparisons 0 ts = [(op, 0)]"
proof -
  from assms obtain ts where tk: "tokenize template = Inr ts"
    by (cases "tokenize template") (simp_all add: parseIs_def)
  from assms tk obtain p :: parser
    where pe: "parseExpression (parseFuel ts) 0 True (ASTParser ts ''is'') = Some (Inr (ast, p))"
      and cur: "current p = Some EOF" and has: "hasTopLevelComparison p"
    by (simp add: parseIs_def split: option.splits sum.splits prod.splits if_splits)
  from parser_sound [of "parseFuel ts", THEN conjunct2, THEN conjunct2, THEN conjunct1,
      rule_format, OF pe]
  obtain seg where s: "scanned (ASTParser ts ''is'') p seg"
    and sc: "scansTo (ASTParser ts ''is'') p seg 0"
    unfolding consumed_def by auto
  from tokenize_shape [OF tk] obtain ts0 where ts0: "ts = ts0 @ [EOF]" "EOF \<notin> set ts0" .
  from s current_remaining [OF cur] have "ts0 @ [EOF] = seg @ EOF # remaining (advance p)"
    by (simp add: scanned_def ts0(1))
  with ts0(2) have "seg = ts0"
    by (auto simp: append_eq_append_conv2 Cons_eq_append_conv append_eq_Cons_conv)
  with sc has have "scan ''is'' (False, 0) ts0 = Inr (True, 0)"
    by (simp add: scansTo_def ASTParser_def)
  with scan_is [of False 0 ts0] have "isVerdict False (comparisons 0 ts0) = Inr True"
    by simp
  from isVerdict_True [OF this] tk ts0(1) show ?thesis by auto
qed

text \<open>
  Claim C2. Predicate mode succeeds only on a template with exactly one comparison
  operator, outside all parentheses: whenever \<open>is\<close> gets a tree from a template, of
  any form, the tokens of the template have one comparison operator, at depth 0. On a
  template that spells a valid expression the outcome is decided by the comparison
  operators of the expression, read from left to right with the number of parentheses
  open at each: with none, \<open>is\<close> fails with \<open>IsRequiresComparison\<close>; with the first one
  inside parentheses or function arguments, it fails with \<open>ComparisonNotTopLevel\<close>;
  with a second one after a first at the top level, it fails with \<open>ChainedComparison\<close>
  if the second is at the top level and with \<open>ComparisonNotTopLevel\<close> if it is nested;
  with exactly one, at the top level, it evaluates the reference tree. The three errors
  are three different errors.
\<close>

theorem is_requires_one_top_level_comparison:
  fixes D :: "('d, 'n::zero) backend"
  assumes "cachesSound h c" and "h i = template"
  shows "(\<forall>v. fst (is' D c \<lparr>ident = i, strings = template\<rparr> vals) = Some (Inr v) \<longrightarrow>
           (\<exists>ts op. tokenize template = Inr (ts @ [EOF]) \<and> comparisons 0 ts = [(op, 0)]))
       \<and> (validExpr e \<and> tokenize template = Inr (toksExpr e @ [EOF]) \<longrightarrow>
           (comparisons 0 (toksExpr e) = [] \<longrightarrow>
              fst (is' D c \<lparr>ident = i, strings = template\<rparr> vals)
                = Some (Inl IsRequiresComparison))
         \<and> (\<forall>op k cs. comparisons 0 (toksExpr e) = (op, k) # cs \<and> k \<noteq> 0 \<longrightarrow>
              fst (is' D c \<lparr>ident = i, strings = template\<rparr> vals)
                = Some (Inl (ComparisonNotTopLevel op)))
         \<and> (\<forall>op op' k cs. comparisons 0 (toksExpr e) = (op, 0) # (op', k) # cs \<longrightarrow>
              fst (is' D c \<lparr>ident = i, strings = template\<rparr> vals)
                = Some (Inl (if k = 0 then ChainedComparison else ComparisonNotTopLevel op')))
         \<and> (\<forall>op. comparisons 0 (toksExpr e) = [(op, 0)] \<longrightarrow>
              fst (is' D c \<lparr>ident = i, strings = template\<rparr> vals)
                = Some (evaluate D (refExpr e) vals)))
       \<and> (\<forall>op. IsRequiresComparison \<noteq> ChainedComparison
              \<and> IsRequiresComparison \<noteq> ComparisonNotTopLevel op
              \<and> ChainedComparison \<noteq> ComparisonNotTopLevel op)"
proof (intro conjI allI impI)
  fix v
  assume "fst (is' D c \<lparr>ident = i, strings = template\<rparr> vals) = Some (Inr v)"
  with is_of_parse [OF assms, of D vals] obtain ast where "parseIs template = Some (Inr ast)"
    by (auto split: option.splits sum.splits)
  then show "\<exists>ts op. tokenize template = Inr (ts @ [EOF]) \<and> comparisons 0 ts = [(op, 0)]"
    by (rule parseIs_sound)
next
  assume a: "validExpr e \<and> tokenize template = Inr (toksExpr e @ [EOF])"
    and "comparisons 0 (toksExpr e) = []"
  then show "fst (is' D c \<lparr>ident = i, strings = template\<rparr> vals) = Some (Inl IsRequiresComparison)"
    using parseIs_valid [of e template] is_of_parse [OF assms, of D vals] by simp
next
  fix op k cs
  assume a: "validExpr e \<and> tokenize template = Inr (toksExpr e @ [EOF])"
    and "comparisons 0 (toksExpr e) = (op, k) # cs \<and> k \<noteq> 0"
  then show "fst (is' D c \<lparr>ident = i, strings = template\<rparr> vals)
      = Some (Inl (ComparisonNotTopLevel op))"
    using parseIs_valid [of e template] is_of_parse [OF assms, of D vals] by simp
next
  fix op op' k cs
  assume a: "validExpr e \<and> tokenize template = Inr (toksExpr e @ [EOF])"
    and "comparisons 0 (toksExpr e) = (op, 0) # (op', k) # cs"
  then show "fst (is' D c \<lparr>ident = i, strings = template\<rparr> vals)
      = Some (Inl (if k = 0 then ChainedComparison else ComparisonNotTopLevel op'))"
    using parseIs_valid [of e template] is_of_parse [OF assms, of D vals] by simp
next
  fix op
  assume a: "validExpr e \<and> tokenize template = Inr (toksExpr e @ [EOF])"
    and "comparisons 0 (toksExpr e) = [(op, 0)]"
  then show "fst (is' D c \<lparr>ident = i, strings = template\<rparr> vals)
      = Some (evaluate D (refExpr e) vals)"
    using parseIs_valid [of e template] is_of_parse [OF assms, of D vals] by simp
qed simp_all

theorem is_requires_one_top_level_comparison_witness:
  "fst (is' intBackend create \<lparr>ident = 0, strings = [''1 + 2'']\<rparr> [])
     = Some (Inl IsRequiresComparison)
   \<and> fst (is' intBackend create \<lparr>ident = 0, strings = [''(1 < 2) == 1'']\<rparr> [])
     = Some (Inl (ComparisonNotTopLevel OpLt))
   \<and> fst (is' intBackend create \<lparr>ident = 0, strings = [''1 < 2 < 3'']\<rparr> [])
     = Some (Inl ChainedComparison)
   \<and> fst (is' intBackend create \<lparr>ident = 0, strings = [''1 < abs(3 > 1)'']\<rparr> [])
     = Some (Inl (ComparisonNotTopLevel OpGt))
   \<and> fst (is' intBackend create \<lparr>ident = 0, strings = [''1 + 2 < 4'']\<rparr> [])
     = Some (Inr (Bool True))
   \<and> (\<exists>ts op. tokenize [''1 + 2 < 4''] = Inr (ts @ [EOF]) \<and> comparisons 0 ts = [(op, 0)])"
proof -
  let ?e1 = "Chain (PNumber ''1'') [(OpAdd, PNumber ''2'')]"
  let ?e2 = "Chain (PParen (Chain (PNumber ''1'') [(OpLt, PNumber ''2'')])) [(OpEq, PNumber ''1'')]"
  let ?e3 = "Chain (PNumber ''1'') [(OpLt, PNumber ''2''), (OpLt, PNumber ''3'')]"
  let ?e4 = "Chain (PNumber ''1'') [(OpLt, PCall ''abs''
      [Chain (PNumber ''3'') [(OpGt, PNumber ''1'')]])]"
  let ?e5 = "Chain (PNumber ''1'') [(OpAdd, PNumber ''2''), (OpLt, PNumber ''4'')]"
  have v: "validExpr ?e1" "validExpr ?e2" "validExpr ?e3" "validExpr ?e4" "validExpr ?e5"
    by (simp_all add: validFunctions_def)
  have t1: "tokenize [''1 + 2''] = Inr (toksExpr ?e1 @ [EOF])" by code_simp
  have t2: "tokenize [''(1 < 2) == 1''] = Inr (toksExpr ?e2 @ [EOF])" by code_simp
  have t3: "tokenize [''1 < 2 < 3''] = Inr (toksExpr ?e3 @ [EOF])" by code_simp
  have t4: "tokenize [''1 < abs(3 > 1)''] = Inr (toksExpr ?e4 @ [EOF])" by code_simp
  have t5: "tokenize [''1 + 2 < 4''] = Inr (toksExpr ?e5 @ [EOF])" by code_simp
  have c1: "comparisons 0 (toksExpr ?e1) = []"
    and c2: "comparisons 0 (toksExpr ?e2) = (OpLt, 1) # [(OpEq, 0)]"
    and c3: "comparisons 0 (toksExpr ?e3) = (OpLt, 0) # (OpLt, 0) # []"
    and c4: "comparisons 0 (toksExpr ?e4) = (OpLt, 0) # (OpGt, 1) # []"
    and c5: "comparisons 0 (toksExpr ?e5) = [(OpLt, 0)]"
    by (simp_all add: COMPARISON_OPS_def)
  have e5: "evaluate intBackend (refExpr ?e5) [] = Inr (Bool True)" by code_simp
  have 1: "fst (is' intBackend create \<lparr>ident = 0, strings = [''1 + 2'']\<rparr> [])
      = Some (Inl IsRequiresComparison)"
    using is_requires_one_top_level_comparison [where e = "?e1" and D = intBackend and i = 0
        and vals = "[]", OF cachesSound_create [of "\<lambda>_. [''1 + 2'']"] refl] v(1) t1 c1
    by simp
  have 2: "fst (is' intBackend create \<lparr>ident = 0, strings = [''(1 < 2) == 1'']\<rparr> [])
      = Some (Inl (ComparisonNotTopLevel OpLt))"
    using is_requires_one_top_level_comparison [where e = "?e2" and D = intBackend and i = 0
        and vals = "[]", OF cachesSound_create [of "\<lambda>_. [''(1 < 2) == 1'']"] refl] v(2) t2 c2
    by simp
  have 3: "fst (is' intBackend create \<lparr>ident = 0, strings = [''1 < 2 < 3'']\<rparr> [])
      = Some (Inl ChainedComparison)"
    using is_requires_one_top_level_comparison [where e = "?e3" and D = intBackend and i = 0
        and vals = "[]", OF cachesSound_create [of "\<lambda>_. [''1 < 2 < 3'']"] refl] v(3) t3 c3
    by simp
  have 4: "fst (is' intBackend create \<lparr>ident = 0, strings = [''1 < abs(3 > 1)'']\<rparr> [])
      = Some (Inl (ComparisonNotTopLevel OpGt))"
    using is_requires_one_top_level_comparison [where e = "?e4" and D = intBackend and i = 0
        and vals = "[]", OF cachesSound_create [of "\<lambda>_. [''1 < abs(3 > 1)'']"] refl] v(4) t4 c4
    by simp
  note T = is_requires_one_top_level_comparison [where e = "?e5" and D = intBackend and i = 0
        and vals = "[]", OF cachesSound_create [of "\<lambda>_. [''1 + 2 < 4'']"] refl]
  have 5: "fst (is' intBackend create \<lparr>ident = 0, strings = [''1 + 2 < 4'']\<rparr> [])
      = Some (Inr (Bool True))"
    using T v(5) t5 c5 e5 by simp
  have 6: "\<exists>ts op. tokenize [''1 + 2 < 4''] = Inr (ts @ [EOF]) \<and> comparisons 0 ts = [(op, 0)]"
    using T [THEN conjunct1, rule_format, of "Bool True"] 5 by simp
  from 1 2 3 4 5 6 show ?thesis by blast
qed

section \<open>The parser always returns\<close>

lemma advance_shorter:
  "current p = Some t \<Longrightarrow> length (remaining p) = Suc (length (remaining (advance p)))"
  by (simp add: current_remaining)

lemma current_None_iff: "current p = None \<longleftrightarrow> remaining p = []"
  by (simp add: current_def remaining_def)

lemma flag_advance_remaining:
  "remaining (advance (if b then p\<lparr>hasTopLevelComparison := True\<rparr> else p)) = remaining (advance p)"
  by (simp add: remaining_def advance_def)

text \<open>A primary and an expression consume at least one token.\<close>

lemma parser_progress:
  "(\<forall>p a p'. parsePrimary n p = Some (Inr (a, p')) \<longrightarrow>
      length (remaining p') < length (remaining p)) \<and>
   (\<forall>args p as p'. parseArgs n args p = Some (Inr (as, p')) \<longrightarrow>
      length (remaining p') \<le> length (remaining p)) \<and>
   (\<forall>m tp p a p'. parseExpression n m tp p = Some (Inr (a, p')) \<longrightarrow>
      length (remaining p') < length (remaining p)) \<and>
   (\<forall>m tp l p a p'. parseLoop n m tp l p = Some (Inr (a, p')) \<longrightarrow>
      length (remaining p') \<le> length (remaining p))"
proof (induction n)
  case 0
  show ?case by simp
next
  case (Suc n)
  have P: "length (remaining p') < length (remaining p)"
    if "parsePrimary n p = Some (Inr (a, p'))" for p a p'
    using Suc [THEN conjunct1, rule_format, OF that] .
  have A: "length (remaining p') \<le> length (remaining p)"
    if "parseArgs n args p = Some (Inr (as, p'))" for args p as p'
    using Suc [THEN conjunct2, THEN conjunct1, rule_format, OF that] .
  have E: "length (remaining p') < length (remaining p)"
    if "parseExpression n m tp p = Some (Inr (a, p'))" for m tp p a p'
    using Suc [THEN conjunct2, THEN conjunct2, THEN conjunct1, rule_format, OF that] .
  have L: "length (remaining p') \<le> length (remaining p)"
    if "parseLoop n m tp l p = Some (Inr (a, p'))" for m tp l p a p'
    using Suc [THEN conjunct2, THEN conjunct2, THEN conjunct2, rule_format, OF that] .
  have 1: "length (remaining p') < length (remaining p)"
    if "parsePrimary (Suc n) p = Some (Inr (a, p'))" for p a p'
    using that
  proof (cases rule: parsePrimary_SucE)
    case (Value i)
    then show ?thesis using advance_shorter [of p] by simp
  next
    case (Number v)
    then show ?thesis using advance_shorter [of p] by simp
  next
    case (Function f args p2)
    from A [OF Function(3)] advance_shorter [OF Function(1)] advance_shorter [OF Function(2)]
    have "length (remaining p2) < length (remaining p)" by simp
    moreover have "length (remaining (advance p2)) \<le> length (remaining p2)"
      by (simp add: remaining_def advance_def)
    ultimately show ?thesis using Function(7) by simp
  next
    case (Unary op operand)
    from P [OF Unary(3)] advance_shorter [OF Unary(1)] show ?thesis by simp
  next
    case (Paren p1)
    from E [OF Paren(2)] advance_shorter [OF Paren(1)] advance_shorter [OF Paren(3)] Paren(4)
    show ?thesis by simp
  qed
  have 2: "length (remaining p') \<le> length (remaining p)"
    if "parseArgs (Suc n) args p = Some (Inr (as, p'))" for args p as p'
    using that
  proof (cases rule: parseArgs_SucE)
    case Done
    then show ?thesis by simp
  next
    case (Comma arg p1)
    from E [OF Comma(2)] advance_shorter [OF Comma(3)] A [OF Comma(4)] show ?thesis by simp
  next
    case (Last arg p1)
    from E [OF Last(2)] A [OF Last(4)] show ?thesis by simp
  qed
  have 3: "length (remaining p') < length (remaining p)"
    if "parseExpression (Suc n) m tp p = Some (Inr (a, p'))" for m tp p a p'
    using that
  proof (cases rule: parseExpression_SucE)
    case (1 left p1)
    from P [OF 1(1)] L [OF 1(2)] show ?thesis by simp
  qed
  have 4: "length (remaining p') \<le> length (remaining p)"
    if "parseLoop (Suc n) m tp l p = Some (Inr (a, p'))" for m tp l p a p'
    using that
  proof (cases rule: parseLoop_SucE)
    case Stop
    then show ?thesis by simp
  next
    case (Step op right p3)
    from E [OF Step(6)] L [OF Step(7)] advance_shorter [OF Step(1)]
    show ?thesis by (simp add: flag_advance_remaining)
  qed
  show ?case using 1 2 3 4 by blast
qed

lemmas primary_progress = parser_progress [THEN conjunct1, rule_format]
lemmas expression_progress = parser_progress [THEN conjunct2, THEN conjunct2, THEN conjunct1, rule_format]

text \<open>
  With three units of fuel for each token left, and one, two or three more, every
  parsing function returns: a tree or an error.
\<close>

lemma parser_total:
  "(\<forall>p. 3 * length (remaining p) + 1 \<le> n \<longrightarrow> (\<exists>y. parsePrimary n p = Some y)) \<and>
   (\<forall>args p. 3 * length (remaining p) + 3 \<le> n \<longrightarrow> (\<exists>y. parseArgs n args p = Some y)) \<and>
   (\<forall>m tp p. 3 * length (remaining p) + 2 \<le> n \<longrightarrow> (\<exists>y. parseExpression n m tp p = Some y)) \<and>
   (\<forall>m tp l p. 3 * length (remaining p) + 1 \<le> n \<longrightarrow> (\<exists>y. parseLoop n m tp l p = Some y))"
proof (induction n)
  case 0
  show ?case by simp
next
  case (Suc n)
  have P: "\<exists>y. parsePrimary n p = Some y" if "3 * length (remaining p) + 1 \<le> n" for p
    using Suc [THEN conjunct1, rule_format, OF that] .
  have A: "\<exists>y. parseArgs n args p = Some y" if "3 * length (remaining p) + 3 \<le> n" for args p
    using Suc [THEN conjunct2, THEN conjunct1, rule_format, OF that] .
  have E: "\<exists>y. parseExpression n m tp p = Some y" if "3 * length (remaining p) + 2 \<le> n"
    for m tp p
    using Suc [THEN conjunct2, THEN conjunct2, THEN conjunct1, rule_format, OF that] .
  have L: "\<exists>y. parseLoop n m tp l p = Some y" if "3 * length (remaining p) + 1 \<le> n"
    for m tp l p
    using Suc [THEN conjunct2, THEN conjunct2, THEN conjunct2, rule_format, OF that] .
  have 1: "\<exists>y. parsePrimary (Suc n) p = Some y"
    if fuel: "3 * length (remaining p) + 1 \<le> Suc n" for p :: parser
  proof (cases "current p")
    case None
    then show ?thesis by simp
  next
    case (Some t)
    note len = advance_shorter [OF Some]
    show ?thesis
    proof (cases t)
      case (VALUE i)
      with Some show ?thesis by simp
    next
      case (NUMBER v)
      with Some show ?thesis by simp
    next
      case (OPERATOR op)
      show ?thesis
      proof (cases "op = OpAdd \<or> op = OpSub")
        case False
        with Some OPERATOR show ?thesis by simp
      next
        case True
        from fuel len have "3 * length (remaining (advance p)) + 1 \<le> n" by simp
        from P [OF this] obtain y where y: "parsePrimary n (advance p) = Some y" ..
        show ?thesis
        proof (cases y)
          case (Inl e)
          with Some OPERATOR True y show ?thesis by simp
        next
          case (Inr r)
          with Some OPERATOR True y show ?thesis by (cases r) simp
        qed
      qed
    next
      case (FUNCTION f)
      show ?thesis
      proof (cases "current (advance p)")
        case None
        with Some FUNCTION show ?thesis by simp
      next
        case t1: (Some t1)
        note len1 = advance_shorter [OF t1]
        show ?thesis
        proof (cases "t1 = LPAREN")
          case False
          with Some FUNCTION t1 show ?thesis by simp
        next
          case True
          from fuel len len1 have "3 * length (remaining (advance (advance p))) + 3 \<le> n" by simp
          from A [OF this] obtain y where y: "parseArgs n [] (advance (advance p)) = Some y" ..
          show ?thesis
          proof (cases y)
            case (Inl e)
            with Some FUNCTION t1 True y show ?thesis by simp
          next
            case (Inr r)
            with Some FUNCTION t1 True y show ?thesis by (cases r) (simp add: Let_def)
          qed
        qed
      qed
    next
      case LPAREN
      from fuel len have "3 * length (remaining (advance p)) + 2 \<le> n" by simp
      from E [OF this] obtain y where y: "parseExpression n 0 False (advance p) = Some y" ..
      show ?thesis
      proof (cases y)
        case (Inl e)
        with Some LPAREN y show ?thesis by simp
      next
        case (Inr r)
        obtain a p1 where r: "r = (a, p1)" by (cases r)
        show ?thesis
        proof (cases "current p1")
          case None
          with Some LPAREN y Inr r show ?thesis by simp
        next
          case c1: (Some t1)
          with Some LPAREN y Inr r show ?thesis by simp
        qed
      qed
    next
      case RPAREN
      with Some show ?thesis by simp
    next
      case COMMA
      with Some show ?thesis by simp
    next
      case EOF
      with Some show ?thesis by simp
    qed
  qed
  have 2: "\<exists>y. parseArgs (Suc n) args p = Some y"
    if fuel: "3 * length (remaining p) + 3 \<le> Suc n" for args and p :: parser
  proof (cases "current p")
    case None
    then show ?thesis by simp
  next
    case (Some t)
    show ?thesis
    proof (cases "t = RPAREN")
      case True
      with Some show ?thesis by simp
    next
      case False
      from fuel have "3 * length (remaining p) + 2 \<le> n" by simp
      from E [OF this] obtain y where y: "parseExpression n 0 False p = Some y" ..
      show ?thesis
      proof (cases y)
        case (Inl e)
        with Some False y show ?thesis by simp
      next
        case (Inr r)
        obtain arg p1 where r: "r = (arg, p1)" by (cases r)
        from expression_progress [OF y [unfolded Inr r]]
        have lt: "length (remaining p1) < length (remaining p)" .
        show ?thesis
        proof (cases "current p1")
          case None
          with Some False y Inr r show ?thesis by simp
        next
          case c1: (Some t1)
          show ?thesis
          proof (cases "t1 = COMMA")
            case True
            from fuel lt advance_shorter [OF c1]
            have "3 * length (remaining (advance p1)) + 3 \<le> n" by simp
            from A [OF this, of "args @ [arg]"] Some False y Inr r c1 True
            show ?thesis by simp
          next
            case nc: False
            show ?thesis
            proof (cases "t1 = RPAREN")
              case False
              with Some \<open>t \<noteq> RPAREN\<close> y Inr r c1 nc show ?thesis by simp
            next
              case True
              from fuel lt have "3 * length (remaining p1) + 3 \<le> n" by simp
              from A [OF this, of "args @ [arg]"] Some \<open>t \<noteq> RPAREN\<close> y Inr r c1 nc True
              show ?thesis by simp
            qed
          qed
        qed
      qed
    qed
  qed
  have 3: "\<exists>y. parseExpression (Suc n) m tp p = Some y"
    if fuel: "3 * length (remaining p) + 2 \<le> Suc n" for m tp and p :: parser
  proof -
    from fuel have "3 * length (remaining p) + 1 \<le> n" by simp
    from P [OF this] obtain y where y: "parsePrimary n p = Some y" ..
    show ?thesis
    proof (cases y)
      case (Inl e)
      with y show ?thesis by simp
    next
      case (Inr r)
      obtain l p1 where r: "r = (l, p1)" by (cases r)
      from primary_progress [OF y [unfolded Inr r]] fuel
      have "3 * length (remaining p1) + 1 \<le> n" by simp
      from L [OF this, of m tp l] y Inr r show ?thesis by simp
    qed
  qed
  have 4: "\<exists>y. parseLoop (Suc n) m tp l p = Some y"
    if fuel: "3 * length (remaining p) + 1 \<le> Suc n" for m tp l and p :: parser
  proof (cases "current p")
    case None
    then show ?thesis by simp
  next
    case (Some t)
    note len = advance_shorter [OF Some]
    show ?thesis
    proof (cases "\<exists>op. t = OPERATOR op")
      case False
      with Some show ?thesis by (cases t) simp_all
    next
      case True
      then obtain op where op: "t = OPERATOR op" ..
      let ?p1 = "if op \<in> COMPARISON_OPS \<and> mode p = ''is''
                 then p\<lparr>hasTopLevelComparison := True\<rparr> else p"
      let ?m = "if op \<in> RIGHT_ASSOC then PRECEDENCE op else PRECEDENCE op + 1"
      show ?thesis
      proof (cases "PRECEDENCE op < m \<or> (op \<in> COMPARISON_OPS \<and> mode p = ''math'')
          \<or> (op \<in> COMPARISON_OPS \<and> mode p = ''is'' \<and> \<not> tp)
          \<or> (op \<in> COMPARISON_OPS \<and> mode p = ''is'' \<and> hasTopLevelComparison p)")
        case True
        with Some op show ?thesis by (auto simp: Let_def)
      next
        case False
        have rem: "remaining (advance ?p1) = remaining (advance p)"
          by (rule flag_advance_remaining)
        from fuel len rem have "3 * length (remaining (advance ?p1)) + 2 \<le> n" by simp
        from E [OF this] obtain y where y: "parseExpression n ?m tp (advance ?p1) = Some y" ..
        show ?thesis
        proof (cases y)
          case (Inl e)
          with Some op False y show ?thesis by (simp add: Let_def)
        next
          case (Inr r)
          obtain right p3 where r: "r = (right, p3)" by (cases r)
          from expression_progress [OF y [unfolded Inr r]] rem len fuel
          have "3 * length (remaining p3) + 1 \<le> n" by simp
          from L [OF this, of m tp "BinaryNode op l right"] Some op False y Inr r
          show ?thesis by (simp add: Let_def)
        qed
      qed
    qed
  qed
  show ?case using 1 2 3 4 by blast
qed

lemma parse_total: "\<exists>y. parseExpression (parseFuel ts) m tp (ASTParser ts md) = Some y"
  using parser_total [of "parseFuel ts", THEN conjunct2, THEN conjunct2, THEN conjunct1,
      rule_format, of "ASTParser ts md" m tp]
  by (simp add: parseFuel_def)

lemma parseMath_total: "\<exists>y. parseMath template = Some y"
proof (cases "tokenize template")
  case (Inl e)
  then show ?thesis by (simp add: parseMath_def)
next
  case (Inr ts)
  from parse_total [of ts 0 True "''math''"] obtain y
    where y: "parseExpression (parseFuel ts) 0 True (ASTParser ts ''math'') = Some y" ..
  show ?thesis
  proof (cases y)
    case (Inl e)
    with Inr y show ?thesis by (simp add: parseMath_def)
  next
    case r: (Inr r)
    with Inr y show ?thesis
      by (cases r) (simp add: parseMath_def split: option.splits)
  qed
qed

lemma parseIs_total: "\<exists>y. parseIs template = Some y"
proof (cases "tokenize template")
  case (Inl e)
  then show ?thesis by (simp add: parseIs_def)
next
  case (Inr ts)
  from parse_total [of ts 0 True "''is''"] obtain y
    where y: "parseExpression (parseFuel ts) 0 True (ASTParser ts ''is'') = Some y" ..
  show ?thesis
  proof (cases y)
    case (Inl e)
    with Inr y show ?thesis by (simp add: parseIs_def)
  next
    case r: (Inr r)
    with Inr y show ?thesis
      by (cases r) (simp add: parseIs_def split: option.splits)
  qed
qed

end
